theory Spec2Isabelle
  imports Main "HOL-Library.Word"
begin

section \<open>JavaScript strings\<close>

text \<open>
  A JavaScript string is a sequence of 16-bit UTF-16 code units. String literals of
  server.js are ASCII and are written with \<open>js\<close>.
\<close>

type_synonym code_unit = "16 word"
type_synonym js_string = "code_unit list"

definition js :: "string \<Rightarrow> js_string" where
  "js s = map of_char s"

text \<open>\<open>String.prototype.startsWith\<close> (case-sensitive, from position 0).\<close>

definition startsWith :: "js_string \<Rightarrow> js_string \<Rightarrow> bool" where
  "startsWith s p = (take (length p) s = p)"

text \<open>What JavaScript throws, as values.\<close>

datatype js_error = URIError | StoreError | MailError

section \<open>encodeURIComponent and decodeURIComponent\<close>

text \<open>
  The unreserved set of \<open>encodeURIComponent\<close>: ASCII letters, decimal digits and
  the marks \<open>- _ . ! ~ * ' ( )\<close>.
\<close>

definition is_unreserved :: "code_unit \<Rightarrow> bool" where
  "is_unreserved c =
     (let n = unat c in
        (0x41 \<le> n \<and> n \<le> 0x5A) \<or> (0x61 \<le> n \<and> n \<le> 0x7A) \<or> (0x30 \<le> n \<and> n \<le> 0x39) \<or>
        n \<in> {0x2D, 0x5F, 0x2E, 0x21, 0x7E, 0x2A, 0x27, 0x28, 0x29})"

definition is_leading_surrogate :: "code_unit \<Rightarrow> bool" where
  "is_leading_surrogate c = (0xD800 \<le> unat c \<and> unat c \<le> 0xDBFF)"

definition is_trailing_surrogate :: "code_unit \<Rightarrow> bool" where
  "is_trailing_surrogate c = (0xDC00 \<le> unat c \<and> unat c \<le> 0xDFFF)"

text \<open>\<open>UTF16SurrogatePairToCodePoint\<close>.\<close>

definition surrogate_pair_to_code_point :: "code_unit \<Rightarrow> code_unit \<Rightarrow> nat" where
  "surrogate_pair_to_code_point lead trail =
     (unat lead - 0xD800) * 0x400 + (unat trail - 0xDC00) + 0x10000"

text \<open>The UTF-8 octets of a code point.\<close>

definition utf8_encode :: "nat \<Rightarrow> nat list" where
  "utf8_encode cp =
     (if cp < 0x80 then [cp]
      else if cp < 0x800 then [0xC0 + cp div 64, 0x80 + cp mod 64]
      else if cp < 0x10000 then [0xE0 + cp div 4096, 0x80 + (cp div 64) mod 64, 0x80 + cp mod 64]
      else [0xF0 + cp div 262144, 0x80 + (cp div 4096) mod 64, 0x80 + (cp div 64) mod 64,
            0x80 + cp mod 64])"

text \<open>An upper-case hexadecimal digit, as a code unit.\<close>

definition hex_digit :: "nat \<Rightarrow> code_unit" where
  "hex_digit d = (if d < 10 then of_nat (0x30 + d) else of_nat (0x41 + (d - 10)))"

definition percent_octet :: "nat \<Rightarrow> js_string" where
  "percent_octet b = [0x25, hex_digit (b div 16), hex_digit (b mod 16)]"

definition percent_encode :: "nat \<Rightarrow> js_string" where
  "percent_encode cp = concat (map percent_octet (utf8_encode cp))"

text \<open>
  \<open>encodeURIComponent\<close>: the abstract operation Encode of ECMAScript with the
  unreserved set above. An unpaired surrogate throws URIError.
\<close>

fun encodeURIComponent :: "js_string \<Rightarrow> js_error + js_string" where
  "encodeURIComponent [] = Inr []"
| "encodeURIComponent [c] =
     (if is_unreserved c then Inr [c]
      else if is_leading_surrogate c \<or> is_trailing_surrogate c then Inl URIError
      else Inr (percent_encode (unat c)))"
| "encodeURIComponent (c # d # ds) =
     (if is_unreserved c then map_sum id ((#) c) (encodeURIComponent (d # ds))
      else if is_trailing_surrogate c then Inl URIError
      else if is_leading_surrogate c then
        (if is_trailing_surrogate d
         then map_sum id ((@) (percent_encode (surrogate_pair_to_code_point c d)))
                (encodeURIComponent ds)
         else Inl URIError)
      else map_sum id ((@) (percent_encode (unat c))) (encodeURIComponent (d # ds)))"

text \<open>The value of a hexadecimal digit of either case.\<close>

definition hex_val :: "code_unit \<Rightarrow> nat option" where
  "hex_val c =
     (let n = unat c in
        if 0x30 \<le> n \<and> n \<le> 0x39 then Some (n - 0x30)
        else if 0x41 \<le> n \<and> n \<le> 0x46 then Some (n - 0x41 + 10)
        else if 0x61 \<le> n \<and> n \<le> 0x66 then Some (n - 0x61 + 10)
        else None)"

text \<open>
  One escape \<open>%XX\<close> at the head of the string: the octet and the rest, or None when
  fewer than three code units are left, the first is not \<open>%\<close>, or a digit is not
  hexadecimal.
\<close>

fun take_escape :: "js_string \<Rightarrow> (nat \<times> js_string) option" where
  "take_escape (p # h # l # rest) =
     (if p = 0x25 then
        (case hex_val h of
           None \<Rightarrow> None
         | Some a \<Rightarrow> (case hex_val l of None \<Rightarrow> None | Some b \<Rightarrow> Some (16 * a + b, rest)))
      else None)"
| "take_escape _ = None"

fun take_continuations :: "nat \<Rightarrow> js_string \<Rightarrow> (nat list \<times> js_string) option" where
  "take_continuations 0 s = Some ([], s)"
| "take_continuations (Suc j) s =
     (case take_escape s of
        None \<Rightarrow> None
      | Some (b, rest) \<Rightarrow>
          (case take_continuations j rest of
             None \<Rightarrow> None
           | Some (bs, rest') \<Rightarrow> Some (b # bs, rest')))"

text \<open>The number of leading 1 bits of an octet.\<close>

definition leading_ones :: "nat \<Rightarrow> nat" where
  "leading_ones b =
     (if b < 0x80 then 0 else if b < 0xC0 then 1 else if b < 0xE0 then 2
      else if b < 0xF0 then 3 else if b < 0xF8 then 4 else 5)"

definition is_continuation :: "nat \<Rightarrow> bool" where
  "is_continuation b = (0x80 \<le> b \<and> b < 0xC0)"

text \<open>
  The code point of a valid UTF-8 encoding: continuation octets are 10xxxxxx, the
  encoding is the shortest one, and the code point is no surrogate and at most
  U+10FFFF.
\<close>

fun utf8_decode :: "nat list \<Rightarrow> nat option" where
  "utf8_decode [b0, b1] =
     (let v = (b0 - 0xC0) * 64 + (b1 - 0x80)
      in if is_continuation b1 \<and> 0x80 \<le> v then Some v else None)"
| "utf8_decode [b0, b1, b2] =
     (let v = (b0 - 0xE0) * 4096 + (b1 - 0x80) * 64 + (b2 - 0x80)
      in if is_continuation b1 \<and> is_continuation b2 \<and> 0x800 \<le> v \<and>
            \<not> (0xD800 \<le> v \<and> v \<le> 0xDFFF) then Some v else None)"
| "utf8_decode [b0, b1, b2, b3] =
     (let v = (b0 - 0xF0) * 262144 + (b1 - 0x80) * 4096 + (b2 - 0x80) * 64 + (b3 - 0x80)
      in if is_continuation b1 \<and> is_continuation b2 \<and> is_continuation b3 \<and>
            0x10000 \<le> v \<and> v \<le> 0x10FFFF then Some v else None)"
| "utf8_decode _ = None"

text \<open>\<open>CodePointToUTF16CodeUnits\<close>.\<close>

definition utf16_encode :: "nat \<Rightarrow> js_string" where
  "utf16_encode cp =
     (if cp < 0x10000 then [of_nat cp]
      else [of_nat (0xD800 + (cp - 0x10000) div 0x400),
            of_nat (0xDC00 + (cp - 0x10000) mod 0x400)])"

lemma take_escape_shorter:
  "take_escape s = Some (b, rest) \<Longrightarrow> length rest < length s"
  by (induction s rule: take_escape.induct) (auto split: if_splits option.splits)

lemma take_continuations_shorter:
  "take_continuations j s = Some (bs, rest) \<Longrightarrow> length rest \<le> length s"
proof (induction j arbitrary: s bs rest)
  case 0
  then show ?case by simp
next
  case (Suc j)
  then show ?case
    by (fastforce split: option.splits dest: take_escape_shorter)
qed

text \<open>
  \<open>decodeURIComponent\<close>: the abstract operation Decode of ECMAScript with an empty
  set of preserved escapes. A malformed escape or an invalid UTF-8 sequence throws
  URIError.
\<close>

function decodeURIComponent :: "js_string \<Rightarrow> js_error + js_string" where
  "decodeURIComponent [] = Inr []"
| "decodeURIComponent (c # cs) =
     (if c \<noteq> 0x25 then map_sum id ((#) c) (decodeURIComponent cs)
      else
        (case take_escape (c # cs) of
           None \<Rightarrow> Inl URIError
         | Some (b, rest) \<Rightarrow>
             (if leading_ones b = 0 then map_sum id ((#) (of_nat b)) (decodeURIComponent rest)
              else if leading_ones b = 1 \<or> 4 < leading_ones b then Inl URIError
              else
                (case take_continuations (leading_ones b - 1) rest of
                   None \<Rightarrow> Inl URIError
                 | Some (bs, rest') \<Rightarrow>
                     (case utf8_decode (b # bs) of
                        None \<Rightarrow> Inl URIError
                      | Some v \<Rightarrow> map_sum id ((@) (utf16_encode v)) (decodeURIComponent rest'))))))"
  by pat_completeness auto
termination
  by (relation "measure length")
     (auto dest!: take_escape_shorter take_continuations_shorter)

section \<open>The regular expression of the link rewriter\<close>

text \<open>
  The backtracking matcher of ECMAScript, for the constructs that \<open>linkRegex\<close> uses:
  literal text, a quantified character class (greedy or lazy, with a minimum count) and
  an optional non-capturing group. The pattern has the flag \<open>i\<close>: characters are
  compared after Canonicalize. Every literal and class member of the pattern is ASCII,
  and a code unit outside ASCII never canonicalises to an ASCII one, so only the
  ASCII letters need their upper-case form here.
\<close>

definition canonicalize :: "code_unit \<Rightarrow> code_unit" where
  "canonicalize c = (if 0x61 \<le> unat c \<and> unat c \<le> 0x7A then c - 0x20 else c)"

datatype cclass = Space | NotChar code_unit | Dot

text \<open>
  \<open>\s\<close> is WhiteSpace and LineTerminator; \<open>.\<close> (without the flag \<open>s\<close>) is every
  code unit but a LineTerminator.
\<close>

definition is_line_terminator :: "code_unit \<Rightarrow> bool" where
  "is_line_terminator c = (c \<in> {0x0A, 0x0D, 0x2028, 0x2029})"

definition is_white_space :: "code_unit \<Rightarrow> bool" where
  "is_white_space c =
     (c \<in> {0x09, 0x0B, 0x0C, 0x20, 0xA0, 0x1680, 0x202F, 0x205F, 0x3000, 0xFEFF} \<or>
      (0x2000 \<le> unat c \<and> unat c \<le> 0x200A))"

fun in_class :: "cclass \<Rightarrow> code_unit \<Rightarrow> bool" where
  "in_class Space c = (is_white_space c \<or> is_line_terminator c)"
| "in_class (NotChar x) c = (canonicalize c \<noteq> canonicalize x)"
| "in_class Dot c = (\<not> is_line_terminator c)"

datatype quant = Greedy | Lazy

datatype atom = Lit js_string | Rep quant nat cclass | Opt "atom list"

text \<open>The literal \<open>l\<close> stands at the head of \<open>s\<close>, up to letter case.\<close>

definition lit_matches :: "js_string \<Rightarrow> js_string \<Rightarrow> bool" where
  "lit_matches l s =
     (length l \<le> length s \<and> map canonicalize (take (length l) s) = map canonicalize l)"

text \<open>The literal \<open>l\<close> occurs somewhere in \<open>s\<close>, up to letter case.\<close>

fun occurs_ci :: "js_string \<Rightarrow> js_string \<Rightarrow> bool" where
  "occurs_ci l [] = lit_matches l []"
| "occurs_ci l (c # cs) = (lit_matches l (c # cs) \<or> occurs_ci l cs)"

text \<open>
  The repetition counts a quantifier tries, in the order of backtracking: a greedy
  quantifier from the longest run down to its minimum, a lazy one from its minimum up.
\<close>

definition counts :: "quant \<Rightarrow> nat \<Rightarrow> nat \<Rightarrow> nat list" where
  "counts q mn n = (case q of Greedy \<Rightarrow> rev [mn..<Suc n] | Lazy \<Rightarrow> [mn..<Suc n])"

fun atom_size :: "atom \<Rightarrow> nat" where
  "atom_size (Lit l) = 1"
| "atom_size (Rep q mn c) = 1"
| "atom_size (Opt g) = Suc (sum_list (map atom_size g))"

text \<open>
  \<open>rx_match atoms s\<close> matches the sequence \<open>atoms\<close> at the head of \<open>s\<close> and returns
  the first match in backtracking order: the text each atom matched, and the rest of
  \<open>s\<close>. \<open>rx_try ks atoms s\<close> tries the repetition counts \<open>ks\<close> in turn, each
  followed by \<open>atoms\<close>. An optional group is tried before it is skipped (the group of
  \<open>linkRegex\<close> cannot match the empty string).
\<close>

function rx_match :: "atom list \<Rightarrow> js_string \<Rightarrow> (js_string list \<times> js_string) option"
  and rx_try :: "nat list \<Rightarrow> atom list \<Rightarrow> js_string \<Rightarrow> (js_string list \<times> js_string) option"
where
  "rx_match [] s = Some ([], s)"
| "rx_match (Lit l # r) s =
     (if lit_matches l s then
        (case rx_match r (drop (length l) s) of
           None \<Rightarrow> None
         | Some (ps, rest) \<Rightarrow> Some (take (length l) s # ps, rest))
      else None)"
| "rx_match (Rep q mn c # r) s = rx_try (counts q mn (length (takeWhile (in_class c) s))) r s"
| "rx_match (Opt g # r) s =
     (case rx_match (g @ r) s of
        Some (ps, rest) \<Rightarrow> Some (concat (take (length g) ps) # drop (length g) ps, rest)
      | None \<Rightarrow>
          (case rx_match r s of
             None \<Rightarrow> None
           | Some (ps, rest) \<Rightarrow> Some ([] # ps, rest)))"
| "rx_try [] r s = None"
| "rx_try (k # ks) r s =
     (case rx_match r (drop k s) of
        Some (ps, rest) \<Rightarrow> Some (take k s # ps, rest)
      | None \<Rightarrow> rx_try ks r s)"
  by pat_completeness auto
termination
  by (relation "measures [\<lambda>x. case x of Inl (r, s) \<Rightarrow> sum_list (map atom_size r)
                                        | Inr (ks, r, s) \<Rightarrow> sum_list (map atom_size r),
                          \<lambda>x. case x of Inl (r, s) \<Rightarrow> 0 | Inr (ks, r, s) \<Rightarrow> Suc (length ks)]")
     auto

text \<open>What the text matched by one atom is: the property of a piece of a match.\<close>

fun piece_ok :: "atom \<Rightarrow> js_string \<Rightarrow> bool" where
  "piece_ok (Lit l) p = (length p = length l \<and> map canonicalize p = map canonicalize l)"
| "piece_ok (Rep q mn c) p = (mn \<le> length p \<and> list_all (in_class c) p)"
| "piece_ok (Opt g) p = True"

text \<open>
  \<open>/<a\s+(?:[^>]*?\s+)?href="([^"]*)"([^>]*)>(.*?)<\/a>/gi\<close>, atom by atom. The
  capture groups are the pieces 4, 6 and 8.
\<close>

definition linkRegex :: "atom list" where
  "linkRegex =
     [Lit (js ''<a''), Rep Greedy 1 Space,
      Opt [Rep Lazy 0 (NotChar 0x3E), Rep Greedy 1 Space],
      Lit (js ''href=\"''), Rep Greedy 0 (NotChar 0x22), Lit (js ''\"''),
      Rep Greedy 0 (NotChar 0x3E), Lit (js ''>''), Rep Lazy 0 Dot, Lit (js ''</a>'')]"

text \<open>One match of \<open>linkRegex\<close>: the arguments the replacer function is called with.\<close>

record link_match =
  matched :: js_string
  url :: js_string
  attributes :: js_string
  content :: js_string

definition link_exec :: "js_string \<Rightarrow> (link_match \<times> js_string) option" where
  "link_exec s =
     (case rx_match linkRegex s of
        Some ([p0, p1, p2, p3, p4, p5, p6, p7, p8, p9], rest) \<Rightarrow>
          Some (\<lparr>matched = concat [p0, p1, p2, p3, p4, p5, p6, p7, p8, p9],
                 url = p4, attributes = p6, content = p8\<rparr>, rest)
      | _ \<Rightarrow> None)"

text \<open>
  The scan of \<open>String.prototype.replace\<close> with a global pattern: the matches from
  left to right, none overlapping another, and the code units between them. After an
  empty match the scan moves on by one code unit.
\<close>

datatype segment = Unmatched code_unit | Matched link_match

function segments :: "js_string \<Rightarrow> segment list" where
  "segments s =
     (case link_exec s of
        Some (m, rest) \<Rightarrow>
          (if length rest < length s then Matched m # segments rest
           else (case s of [] \<Rightarrow> [Matched m] | c # cs \<Rightarrow> Matched m # Unmatched c # segments cs))
      | None \<Rightarrow> (case s of [] \<Rightarrow> [] | c # cs \<Rightarrow> Unmatched c # segments cs))"
  by pat_completeness auto
termination
  by (relation "measure length") auto

declare segments.simps [simp del]

section \<open>rewriteLinksForTracking\<close>

text \<open>
  The replacer function of \<open>rewriteLinksForTracking\<close>. \<open>base\<close> is \<open>BASE_URL\<close>, read
  from the environment when the server starts.
\<close>

definition replacer :: "js_string \<Rightarrow> js_string \<Rightarrow> link_match \<Rightarrow> js_error + js_string" where
  "replacer base trackingId m =
     (if startsWith (url m) (js ''mailto:'') \<or> startsWith (url m) (js ''#'') then Inr (matched m)
      else
        (case encodeURIComponent (url m) of
           Inl e \<Rightarrow> Inl e
         | Inr encodedUrl \<Rightarrow>
             Inr (js ''<a href=\"'' @ base @ js ''/api/click?id='' @ trackingId @ js ''&url='' @
                  encodedUrl @ js ''\"'' @ attributes m @ js ''>'' @ content m @ js ''</a>'')))"


fun seg_output :: "js_string \<Rightarrow> js_string \<Rightarrow> segment \<Rightarrow> js_error + js_string" where
  "seg_output base trackingId (Unmatched c) = Inr [c]"
| "seg_output base trackingId (Matched m) = replacer base trackingId m"

text \<open>The replacements in order; the first exception ends the call.\<close>

fun join_outputs :: "(js_error + js_string) list \<Rightarrow> js_error + js_string" where
  "join_outputs [] = Inr []"
| "join_outputs (Inl e # rs) = Inl e"
| "join_outputs (Inr t # rs) = map_sum id ((@) t) (join_outputs rs)"

definition rewriteLinksForTracking :: "js_string \<Rightarrow> js_string \<Rightarrow> js_string \<Rightarrow> js_error + js_string" where
  "rewriteLinksForTracking base htmlBody trackingId =
     join_outputs (map (seg_output base trackingId) (segments htmlBody))"

section \<open>Tracking records and the record store\<close>

datatype status = SENT | OPENED

text \<open>The values of the field \<open>method\<close> other than null.\<close>

datatype channel = PIXEL | CLICK

text \<open>A Date, as its time value in milliseconds.\<close>

type_synonym date = int

record tracking =
  trackingId :: js_string
  to :: js_string
  subject :: js_string
  body :: js_string
  role :: js_string
  company :: js_string
  status :: status
  method' :: "channel option"
  sentAt :: date
  openedAt :: "date option"
  ipAddress :: "js_string option"
  userAgent :: "js_string option"
  openCount :: nat

text \<open>
  \<open>openCount\<close> is a Number, an IEEE 754 double that holds an integer here. Adding 1
  is exact below \<open>2 ^ 53\<close>. From there on the doubles are the even integers (up to
  \<open>2 ^ 54\<close>), the exact sum lies half way between two of them and is rounded to the
  one with the even significand; from \<open>2 ^ 54\<close> on the sum is rounded back to the
  number itself.
\<close>

definition number_add_one :: "nat \<Rightarrow> nat" where
  "number_add_one n =
     (if n < 2 ^ 53 then n + 1
      else if n < 2 ^ 54 \<and> odd (n div 2) then n + 2
      else n)"

text \<open>The collection, keyed by \<open>trackingId\<close> (the schema declares it unique).\<close>

type_synonym store = "js_string \<Rightarrow> tracking option"

text \<open>
  What a handler finds around it when it runs: the clock read by \<open>new Date()\<close>, and
  whether a call of the record store or of the mailer throws. A call that throws
  leaves the store as it was.
\<close>

record env =
  clock :: date
  findOne_throws :: bool
  updateOne_throws :: bool
  create_throws :: bool
  sendMail_throws :: bool

text \<open>
  The fields of \<open>updateData\<close>; None is a key the object does not have, or one whose
  value is undefined. \<open>updateOne\<close> sets the fields whose keys have a value and leaves
  the others as they are.
\<close>

record updateData =
  set_openedAt :: "date option"
  set_method :: "channel option"
  set_openCount :: nat
  set_ipAddress :: "js_string option"
  set_userAgent :: "js_string option"
  set_status :: "status option"

definition apply_update :: "updateData \<Rightarrow> tracking \<Rightarrow> tracking" where
  "apply_update u t =
     t\<lparr>openedAt := (case set_openedAt u of Some d \<Rightarrow> Some d | None \<Rightarrow> openedAt t),
       method' := (case set_method u of Some m \<Rightarrow> Some m | None \<Rightarrow> method' t),
       openCount := set_openCount u,
       ipAddress := (case set_ipAddress u of Some a \<Rightarrow> Some a | None \<Rightarrow> ipAddress t),
       userAgent := (case set_userAgent u of Some a \<Rightarrow> Some a | None \<Rightarrow> userAgent t),
       status := (case set_status u of Some st \<Rightarrow> st | None \<Rightarrow> status t)\<rparr>"

definition findOne :: "env \<Rightarrow> store \<Rightarrow> js_string \<Rightarrow> js_error + tracking option" where
  "findOne e db k = (if findOne_throws e then Inl StoreError else Inr (db k))"

definition updateOne :: "env \<Rightarrow> store \<Rightarrow> js_string \<Rightarrow> updateData \<Rightarrow> js_error + store" where
  "updateOne e db k u =
     (if updateOne_throws e then Inl StoreError
      else Inr (case db k of None \<Rightarrow> db | Some t \<Rightarrow> db(k \<mapsto> apply_update u t)))"

text \<open>\<open>Tracking.create\<close>: a second record with the same \<open>trackingId\<close> is refused.\<close>

definition create :: "env \<Rightarrow> store \<Rightarrow> tracking \<Rightarrow> js_error + store" where
  "create e db t =
     (if create_throws e \<or> db (trackingId t) \<noteq> None then Inl StoreError
      else Inr (db(trackingId t \<mapsto> t)))"

section \<open>The request handlers\<close>

text \<open>
  A value read from the request is a string or undefined (None). \<open>truthy\<close> is
  ToBoolean: undefined and the empty string are false.
\<close>

definition truthy :: "js_string option \<Rightarrow> bool" where
  "truthy v = (case v of None \<Rightarrow> False | Some s \<Rightarrow> s \<noteq> [])"

text \<open>\<open>a || b\<close> on such values.\<close>

definition js_or :: "js_string option \<Rightarrow> js_string option \<Rightarrow> js_string option" where
  "js_or a b = (if truthy a then a else b)"

record requester =
  req_ip :: "js_string option"
  forwarded_for :: "js_string option"
  remote_address :: "js_string option"
  user_agent :: "js_string option"

definition requester_address :: "requester \<Rightarrow> js_string option" where
  "requester_address rq = js_or (req_ip rq) (js_or (forwarded_for rq) (remote_address rq))"

text \<open>
  What a handler answers. \<open>Rejected\<close> is an exception that leaves the handler: its
  promise rejects and the handler writes no response.
\<close>

datatype response =
    Text nat js_string
  | Json nat
  | Redirect js_string
  | Png nat "nat list"
  | Rejected js_error

subsection \<open>GET /api/click\<close>

record click_query =
  q_id :: "js_string option"
  q_url :: "js_string option"

definition click_updateData :: "env \<Rightarrow> requester \<Rightarrow> tracking \<Rightarrow> updateData" where
  "click_updateData e rq t =
     \<lparr>set_openedAt = Some (case openedAt t of Some d \<Rightarrow> d | None \<Rightarrow> clock e),
      set_method = Some (case method' t of Some m \<Rightarrow> m | None \<Rightarrow> CLICK),
      set_openCount = number_add_one (openCount t),
      set_ipAddress = requester_address rq,
      set_userAgent = user_agent rq,
      set_status = (if status t \<noteq> OPENED then Some OPENED else None)\<rparr>"

text \<open>\<open>res.redirect(decodeURIComponent(url))\<close>.\<close>

definition redirect_decoded :: "js_string \<Rightarrow> js_error + response" where
  "redirect_decoded u = (case decodeURIComponent u of Inl err \<Rightarrow> Inl err | Inr target \<Rightarrow> Inr (Redirect target))"

text \<open>The \<open>try\<close> block of the click handler: what it throws or answers, and the store.\<close>

definition click_try :: "env \<Rightarrow> requester \<Rightarrow> js_string \<Rightarrow> js_string \<Rightarrow> store \<Rightarrow> (js_error + response) \<times> store" where
  "click_try e rq k u db =
     (case findOne e db k of
        Inl err \<Rightarrow> (Inl err, db)
      | Inr None \<Rightarrow> (redirect_decoded u, db)
      | Inr (Some t) \<Rightarrow>
          (case updateOne e db k (click_updateData e rq t) of
             Inl err \<Rightarrow> (Inl err, db)
           | Inr db' \<Rightarrow> (redirect_decoded u, db')))"

definition click :: "env \<Rightarrow> requester \<Rightarrow> click_query \<Rightarrow> store \<Rightarrow> response \<times> store" where
  "click e rq q db =
     (if \<not> truthy (q_id q) \<or> \<not> truthy (q_url q) then (Text 400 (js ''Missing parameters''), db)
      else
        (case (q_id q, q_url q) of
           (Some k, Some u) \<Rightarrow>
             (case click_try e rq k u db of
                (Inr answer, db') \<Rightarrow> (answer, db')
              | (Inl err, db') \<Rightarrow>
                  (case redirect_decoded u of
                     Inl err' \<Rightarrow> (Rejected err', db')
                   | Inr answer \<Rightarrow> (answer, db')))
         | _ \<Rightarrow> (Text 400 (js ''Missing parameters''), db)))"

text \<open>
  Modelled from the spec: the query parser of the framework is not part of server.js.
  The \<open>url\<close> parameter arrives percent-encoded and the handler reads it from
  \<open>req.query\<close> decoded once: \<open>+\<close> is a space, the escapes are decoded as
  \<open>decodeURIComponent\<close> decodes them, and a value that does not decode is kept as it
  is.
\<close>

definition query_decode :: "js_string \<Rightarrow> js_string" where
  "query_decode s =
     (let t = map (\<lambda>c. if c = 0x2B then 0x20 else c) s
      in case decodeURIComponent t of Inl err \<Rightarrow> t | Inr d \<Rightarrow> d)"

subsection \<open>GET /api/pixel/:id\<close>

definition pixel_updateData :: "env \<Rightarrow> requester \<Rightarrow> tracking \<Rightarrow> updateData" where
  "pixel_updateData e rq t =
     \<lparr>set_openedAt = (if status t \<noteq> OPENED then Some (clock e) else None),
      set_method = (if status t \<noteq> OPENED then Some PIXEL else None),
      set_openCount = number_add_one (openCount t),
      set_ipAddress = requester_address rq,
      set_userAgent = user_agent rq,
      set_status = (if status t \<noteq> OPENED then Some OPENED else None)\<rparr>"

text \<open>\<open>Buffer.from(text, "base64")\<close>, as a list of octets.\<close>

definition base64_value :: "char \<Rightarrow> nat option" where
  "base64_value c =
     (let n = (of_char c :: nat) in
        if 0x41 \<le> n \<and> n \<le> 0x5A then Some (n - 0x41)
        else if 0x61 \<le> n \<and> n \<le> 0x7A then Some (n - 0x61 + 26)
        else if 0x30 \<le> n \<and> n \<le> 0x39 then Some (n - 0x30 + 52)
        else if n = 0x2B then Some 62
        else if n = 0x2F then Some 63
        else None)"

fun base64_octets :: "nat list \<Rightarrow> nat list" where
  "base64_octets (a # b # c # d # rest) =
     (a * 4 + b div 16) # ((b mod 16) * 16 + c div 4) # ((c mod 4) * 64 + d) # base64_octets rest"
| "base64_octets [a, b, c] = [a * 4 + b div 16, (b mod 16) * 16 + c div 4]"
| "base64_octets [a, b] = [a * 4 + b div 16]"
| "base64_octets _ = []"

definition buffer_from_base64 :: "string \<Rightarrow> nat list" where
  "buffer_from_base64 s = base64_octets (List.map_filter base64_value s)"

definition png :: "nat list" where
  "png = buffer_from_base64
     ''iVBORw0KGgoAAAANSUhEUgAAAAEAAAABCAQAAAC1HAwCAAAAC0lEQVR42mNkYAAAAAYAAjCB0C8AAAAASUVORK5CYII=''"

text \<open>The \<open>try\<close> block of the pixel handler: the store it leaves.\<close>

definition pixel_try :: "env \<Rightarrow> requester \<Rightarrow> js_string \<Rightarrow> store \<Rightarrow> js_error + store" where
  "pixel_try e rq k db =
     (case findOne e db k of
        Inl err \<Rightarrow> Inl err
      | Inr None \<Rightarrow> Inr db
      | Inr (Some t) \<Rightarrow> updateOne e db k (pixel_updateData e rq t))"

definition pixel :: "env \<Rightarrow> requester \<Rightarrow> js_string \<Rightarrow> store \<Rightarrow> response \<times> store" where
  "pixel e rq k db =
     (case pixel_try e rq k db of
        Inl err \<Rightarrow> (Png 200 png, db)
      | Inr db' \<Rightarrow> (Png 200 png, db'))"

subsection \<open>POST /api/send-email\<close>

record send_body =
  b_to :: "js_string option"
  b_subject :: "js_string option"
  b_body :: "js_string option"
  b_trackingId :: "js_string option"
  b_role :: "js_string option"
  b_company :: "js_string option"

text \<open>\<open>v || "text"\<close>.\<close>

definition or_default :: "js_string option \<Rightarrow> js_string \<Rightarrow> js_string" where
  "or_default v d = (case v of None \<Rightarrow> d | Some s \<Rightarrow> if s = [] then d else s)"

text \<open>\<open>body.replace(/\n/g, "<br/>")\<close>.\<close>

definition replace_newlines :: "js_string \<Rightarrow> js_string" where
  "replace_newlines s = concat (map (\<lambda>c. if c = 0x0A then js ''<br/>'' else [c]) s)"

definition new_tracking :: "env \<Rightarrow> send_body \<Rightarrow> js_string \<Rightarrow> js_string \<Rightarrow> js_string \<Rightarrow> tracking" where
  "new_tracking e b k recipient text =
     \<lparr>trackingId = k, to = recipient, subject = or_default (b_subject b) (js ''Application''),
      body = text, role = or_default (b_role b) (js ''Position''),
      company = or_default (b_company b) (js ''Company''),
      status = SENT, method' = None, sentAt = clock e, openedAt = None,
      ipAddress = None, userAgent = None, openCount = 0\<rparr>"

text \<open>
  The handler creates the record, composes the message (the rewrite of the links can
  throw) and hands it to the mailer. Every exception is answered with 500; the record
  stays.
\<close>

definition send_email :: "js_string \<Rightarrow> env \<Rightarrow> send_body \<Rightarrow> store \<Rightarrow> response \<times> store" where
  "send_email base e b db =
     (if \<not> truthy (b_to b) \<or> \<not> truthy (b_body b) \<or> \<not> truthy (b_trackingId b) then (Json 400, db)
      else
        (case (b_to b, b_body b, b_trackingId b) of
           (Some recipient, Some text, Some k) \<Rightarrow>
             (case create e db (new_tracking e b k recipient text) of
                Inl err \<Rightarrow> (Json 500, db)
              | Inr db' \<Rightarrow>
                  (case rewriteLinksForTracking base (replace_newlines text) k of
                     Inl err \<Rightarrow> (Json 500, db')
                   | Inr processedBody \<Rightarrow>
                       if sendMail_throws e then (Json 500, db') else (Json 200, db')))
         | _ \<Rightarrow> (Json 400, db)))"

subsection \<open>Requests in sequence\<close>

datatype request =
    SendEmail env send_body
  | Click env requester click_query
  | Pixel env requester js_string

fun handle :: "js_string \<Rightarrow> request \<Rightarrow> store \<Rightarrow> response \<times> store" where
  "handle base (SendEmail e b) db = send_email base e b db"
| "handle base (Click e rq q) db = click e rq q db"
| "handle base (Pixel e rq k) db = pixel e rq k db"

text \<open>The store after the requests \<open>rs\<close>, each handled to its end before the next.\<close>

definition run :: "js_string \<Rightarrow> request list \<Rightarrow> store \<Rightarrow> store" where
  "run base rs db = foldl (\<lambda>d r. snd (handle base r d)) db rs"

text \<open>
  Requests that overlap. A handler is an async function: it runs without interruption
  up to an \<open>await\<close>, and other handlers run while it waits for the record store;
  \<open>Tracking.create\<close>, \<open>findOne\<close> and \<open>updateOne\<close> each act on the collection at
  once. So the click and the pixel handler each take two steps: the handler finds the
  record and computes \<open>updateData\<close> from what it found; later that update is written
  to whatever the record has become by then, or is lost when \<open>updateOne\<close> throws.
  A state of the server is the store together with the updates that are computed and
  not yet written. The stores of \<open>run\<close> are among the reachable ones.
\<close>

type_synonym pending = "js_string \<times> updateData"

inductive reachable :: "js_string \<Rightarrow> store \<Rightarrow> pending list \<Rightarrow> bool" for base :: js_string where
  reachable_empty: "reachable base Map.empty []"
| reachable_send: "reachable base db ps \<Longrightarrow> reachable base (snd (send_email base e b db)) ps"
| reachable_click_found:
    "reachable base db ps \<Longrightarrow> db k = Some t \<Longrightarrow>
     reachable base db ((k, click_updateData e rq t) # ps)"
| reachable_pixel_found:
    "reachable base db ps \<Longrightarrow> db k = Some t \<Longrightarrow>
     reachable base db ((k, pixel_updateData e rq t) # ps)"
| reachable_written:
    "reachable base db (ps @ (k, u) # qs) \<Longrightarrow> updateOne e db k u = Inr db' \<Longrightarrow>
     reachable base db' (ps @ qs)"
| reachable_lost: "reachable base db (ps @ (k, u) # qs) \<Longrightarrow> reachable base db (ps @ qs)"

text \<open>
  An engagement event on the record \<open>k\<close>: a pixel fetch for \<open>k\<close>, or a click for
  \<open>k\<close> that passes the guard of the click handler (an id and a url that are not
  empty).
\<close>

fun engages :: "js_string \<Rightarrow> request \<Rightarrow> bool" where
  "engages k (SendEmail e b) = False"
| "engages k (Click e rq q) = (q_id q = Some k \<and> k \<noteq> [] \<and> truthy (q_url q))"
| "engages k (Pixel e rq k') = (k' = k)"

fun request_channel :: "request \<Rightarrow> channel option" where
  "request_channel (SendEmail e b) = None"
| "request_channel (Click e rq q) = Some CLICK"
| "request_channel (Pixel e rq k) = Some PIXEL"

fun request_env :: "request \<Rightarrow> env" where
  "request_env (SendEmail e b) = e"
| "request_env (Click e rq q) = e"
| "request_env (Pixel e rq k) = e"

text \<open>
  The event is recorded when the calls of the record store in its handler do not throw.
  An event whose \<open>findOne\<close> or \<open>updateOne\<close> throws is answered all the same, with
  the image or the redirect, and leaves the record as it was.
\<close>

definition recorded :: "js_string \<Rightarrow> request \<Rightarrow> bool" where
  "recorded k r =
     (engages k r \<and> \<not> findOne_throws (request_env r) \<and> \<not> updateOne_throws (request_env r))"

definition recorded_events :: "js_string \<Rightarrow> request list \<Rightarrow> request list" where
  "recorded_events k rs = filter (recorded k) rs"

text \<open>The three fields that record the first engagement agree.\<close>

definition consistent :: "tracking \<Rightarrow> bool" where
  "consistent t =
     ((status t = OPENED) = (openedAt t \<noteq> None) \<and> (openedAt t \<noteq> None) = (method' t \<noteq> None))"

text \<open>
  The invariant of the reachable states: every record is consistent, and an update
  that is not yet written will leave its record consistent. Such an update sets
  \<open>openedAt\<close> and \<open>method\<close> together; it sets \<open>status\<close> to OPENED together with
  them, or leaves \<open>status\<close> alone, and then it sets nothing or was computed from a
  record that was OPENED already, and is so still.
\<close>

definition pending_ok :: "store \<Rightarrow> pending \<Rightarrow> bool" where
  "pending_ok db p =
     (case p of (k, u) \<Rightarrow>
        (set_openedAt u = None) = (set_method u = None) \<and>
        (case set_status u of
           Some st \<Rightarrow> st = OPENED \<and> set_openedAt u \<noteq> None
         | None \<Rightarrow> set_openedAt u = None \<or> (case db k of None \<Rightarrow> False | Some t \<Rightarrow> status t = OPENED)))"

definition store_ok :: "store \<Rightarrow> bool" where
  "store_ok db = (\<forall>k t. db k = Some t \<longrightarrow> consistent t)"

text \<open>
  The record after the request \<open>r\<close>, for an event that is recorded: the update the
  handler of \<open>r\<close> writes. \<open>replay k rs t\<close> is the record \<open>k\<close> after the requests
  \<open>rs\<close>.
\<close>

definition engaged :: "request \<Rightarrow> tracking \<Rightarrow> tracking" where
  "engaged r t =
     (case r of
        SendEmail e b \<Rightarrow> t
      | Click e rq q \<Rightarrow> apply_update (click_updateData e rq t) t
      | Pixel e rq k \<Rightarrow> apply_update (pixel_updateData e rq t) t)"

definition step_record :: "js_string \<Rightarrow> request \<Rightarrow> tracking \<Rightarrow> tracking" where
  "step_record k r t = (if recorded k r then engaged r t else t)"

definition replay :: "js_string \<Rightarrow> request list \<Rightarrow> tracking \<Rightarrow> tracking" where
  "replay k rs t = foldl (\<lambda>t r. step_record k r t) t rs"

text \<open>An environment in which no call throws, and a requester that sends no headers.\<close>

definition calm :: "date \<Rightarrow> env" where
  "calm now = \<lparr>clock = now, findOne_throws = False, updateOne_throws = False,
                create_throws = False, sendMail_throws = False\<rparr>"

definition nobody :: requester where
  "nobody = \<lparr>req_ip = None, forwarded_for = None, remote_address = None, user_agent = None\<rparr>"

text \<open>The body of a send request with its three required fields.\<close>

definition mail :: "string \<Rightarrow> string \<Rightarrow> string \<Rightarrow> send_body" where
  "mail recipient text k =
     \<lparr>b_to = Some (js recipient), b_subject = None, b_body = Some (js text),
      b_trackingId = Some (js k), b_role = None, b_company = None\<rparr>"

text \<open>
  Two requests that overlap on the record \<open>abc123\<close>, created at time 1000: the record
  as it is created; the record once a pixel fetch at time 2000 has found it so and has
  written its update; and the update of a click at time 3000 that has found the record
  as it was created, before the pixel fetch wrote.
\<close>

abbreviation fresh :: tracking where
  "fresh \<equiv> new_tracking (calm 1000) (mail ''a@b.c'' ''Hi'' ''abc123'') (js ''abc123'')
     (js ''a@b.c'') (js ''Hi'')"

abbreviation opened_by_pixel :: tracking where
  "opened_by_pixel \<equiv> apply_update (pixel_updateData (calm 2000) nobody fresh) fresh"

abbreviation stale_click :: updateData where
  "stale_click \<equiv> click_updateData (calm 3000) nobody fresh"

section \<open>The link rewriter\<close>

text \<open>
  A match splits the string into the text of the match and the rest, and every piece
  of the match is what its atom asks for.
\<close>

lemma counts_set: "k \<in> set (counts q mn n) \<Longrightarrow> mn \<le> k \<and> k \<le> n"
  by (cases q) (auto simp: counts_def)

lemma take_takeWhile_all:
  "k \<le> length (takeWhile P s) \<Longrightarrow> list_all P (take k s)"
proof (induction s arbitrary: k)
  case Nil
  then show ?case by simp
next
  case (Cons c s)
  then show ?case by (cases k) (auto split: if_splits)
qed

lemma rx_match_sound:
  "rx_match atoms s = Some (ps, rest) \<Longrightarrow> s = concat ps @ rest \<and> list_all2 piece_ok atoms ps"
  "rx_try ks atoms s = Some (ps, rest) \<Longrightarrow>
     \<exists>k qs. ps = take k s # qs \<and> k \<in> set ks \<and> drop k s = concat qs @ rest \<and> list_all2 piece_ok atoms qs"
proof (induction atoms s and ks atoms s arbitrary: ps rest and ps rest rule: rx_match_rx_try.induct)
  case (1 s)
  then show ?case by simp
next
  case (2 l r s)
  then show ?case
    by (auto simp: lit_matches_def split: if_splits option.splits)
       (metis append_take_drop_id)
next
  case (3 q mn c r s)
  from 3(2) have "rx_try (counts q mn (length (takeWhile (in_class c) s))) r s = Some (ps, rest)"
    by simp
  from 3(1) [OF this] obtain k qs where
    k: "ps = take k s # qs" "k \<in> set (counts q mn (length (takeWhile (in_class c) s)))"
       "drop k s = concat qs @ rest" "list_all2 piece_ok r qs"
    by blast
  from counts_set [OF k(2)] have b: "mn \<le> k" "k \<le> length (takeWhile (in_class c) s)" by simp_all
  have "s = take k s @ drop k s" by simp
  moreover have "k \<le> length s"
    using b(2) length_takeWhile_le [of "in_class c" s] by simp
  ultimately show ?case using k b
    by (simp add: take_takeWhile_all)
next
  case (4 g r s)
  show ?case
  proof (cases "rx_match (g @ r) s")
    case None
    with 4(2) [OF None] 4(3) show ?thesis
      by (auto split: option.splits)
  next
    case (Some a)
    obtain qs rest' where a: "a = (qs, rest')" by (cases a)
    with Some 4(3) have ps: "ps = concat (take (length g) qs) # drop (length g) qs" "rest' = rest"
      by simp_all
    from 4(1) [of qs rest'] Some a have s: "s = concat qs @ rest'" "list_all2 piece_ok (g @ r) qs"
      by simp_all
    from s(2) have "length qs = length g + length r" by (auto dest: list_all2_lengthD)
    with s(2) have "list_all2 piece_ok r (drop (length g) qs)"
      by (metis append_eq_conv_conj list_all2_append1 list_all2_lengthD)
    moreover have "concat qs = concat (take (length g) qs) @ concat (drop (length g) qs)"
      by (metis append_take_drop_id concat_append)
    ultimately show ?thesis using ps s(1) by simp
  qed
next
  case (5 r s)
  then show ?case by simp
next
  case (6 k ks r s)
  show ?case
  proof (cases "rx_match r (drop k s)")
    case None
    with 6(2) [OF None] 6(3) show ?thesis by (auto split: option.splits)
  next
    case (Some a)
    obtain qs rest' where a: "a = (qs, rest')" by (cases a)
    with Some 6(3) have ps: "ps = take k s # qs" "rest' = rest" by simp_all
    from 6(1) [of qs rest'] Some a have "drop k s = concat qs @ rest'" "list_all2 piece_ok r qs"
      by simp_all
    with ps show ?thesis by auto
  qed
qed

lemma list_all2_ten:
  assumes "list_all2 P [a0, a1, a2, a3, a4, a5, a6, a7, a8, a9] ps"
  shows "\<exists>p0 p1 p2 p3 p4 p5 p6 p7 p8 p9.
           ps = [p0, p1, p2, p3, p4, p5, p6, p7, p8, p9] \<and> P a0 p0 \<and> P a1 p1 \<and> P a2 p2 \<and>
           P a3 p3 \<and> P a4 p4 \<and> P a5 p5 \<and> P a6 p6 \<and> P a7 p7 \<and> P a8 p8 \<and> P a9 p9"
  using assms by (auto simp: list_all2_Cons1)

lemma link_exec_pieces:
  assumes "link_exec s = Some (m, rest)"
  shows "\<exists>p0 p1 p2 p3 p5 p7 p9.
           s = matched m @ rest \<and>
           matched m = p0 @ p1 @ p2 @ p3 @ url m @ p5 @ attributes m @ p7 @ content m @ p9 \<and>
           piece_ok (Lit (js ''<a'')) p0 \<and> piece_ok (Rep Greedy 1 Space) p1 \<and>
           piece_ok (Lit (js ''href=\"'')) p3 \<and>
           piece_ok (Rep Greedy 0 (NotChar 0x22)) (url m) \<and> piece_ok (Lit (js ''\"'')) p5 \<and>
           piece_ok (Rep Greedy 0 (NotChar 0x3E)) (attributes m) \<and> piece_ok (Lit (js ''>'')) p7 \<and>
           piece_ok (Rep Lazy 0 Dot) (content m) \<and> piece_ok (Lit (js ''</a>'')) p9"
proof (cases "rx_match linkRegex s")
  case None
  with assms show ?thesis by (simp add: link_exec_def)
next
  case (Some a)
  obtain ps rest' where a: "a = (ps, rest')" by (cases a)
  from rx_match_sound(1) [OF Some [unfolded a]]
  have s: "s = concat ps @ rest'" and ok: "list_all2 piece_ok linkRegex ps"
    by simp_all
  from list_all2_ten [OF ok [unfolded linkRegex_def]]
  obtain p0 p1 p2 p3 p4 p5 p6 p7 p8 p9 where
    l: "ps = [p0, p1, p2, p3, p4, p5, p6, p7, p8, p9]"
    and o: "piece_ok (Lit (js ''<a'')) p0" "piece_ok (Rep Greedy 1 Space) p1"
      "piece_ok (Lit (js ''href=\"'')) p3"
      "piece_ok (Rep Greedy 0 (NotChar 0x22)) p4" "piece_ok (Lit (js ''\"'')) p5"
      "piece_ok (Rep Greedy 0 (NotChar 0x3E)) p6" "piece_ok (Lit (js ''>'')) p7"
      "piece_ok (Rep Lazy 0 Dot) p8" "piece_ok (Lit (js ''</a>'')) p9"
    by blast
  have "link_exec s = Some (\<lparr>matched = concat ps, url = p4, attributes = p6, content = p8\<rparr>, rest')"
    unfolding link_exec_def Some a l by (simp only: option.case prod.case list.case)
  with assms
  have m: "m = \<lparr>matched = concat ps, url = p4, attributes = p6, content = p8\<rparr>" and r: "rest = rest'"
    by simp_all
  have f: "matched m = p0 @ p1 @ p2 @ p3 @ p4 @ p5 @ p6 @ p7 @ p8 @ p9"
    "url m = p4" "attributes m = p6" "content m = p8"
    unfolding m l by simp_all
  have "s = matched m @ rest" using s unfolding m r by simp
  with o f show ?thesis by (metis (no_types))
qed






text \<open>Evaluation of the model on concrete input, by rewriting.\<close>

lemmas evaluation = rewriteLinksForTracking_def segments.simps link_exec_def linkRegex_def js_def counts_def lit_matches_def canonicalize_def is_white_space_def is_line_terminator_def replacer_def startsWith_def is_unreserved_def is_leading_surrogate_def is_trailing_surrogate_def percent_encode_def percent_octet_def utf8_encode_def hex_digit_def



subsection \<open>The claims about the link rewriter\<close>

text \<open>
  C1 fails on the code. The replacer function writes the new tag from the literal text
  \<open><a href="\<close>, the tracking URL, the attributes after the href and the content; the
  attributes before the href are matched by a group that captures nothing and are
  lost. Here the anchor loses \<open>class="x"\<close> and keeps \<open>id="y"\<close>.
\<close>

theorem attributes_before_href_dropped:
  "rewriteLinksForTracking (js ''http://localhost:4000'')
     (js ''<a class=\"x\" href=\"https://x.com\" id=\"y\">link</a>'') (js ''abc123'') =
   Inr (js ''<a href=\"http://localhost:4000/api/click?id=abc123&url=https%3A%2F%2Fx.com\" id=\"y\">link</a>'')"
  by (simp add: evaluation)





lemma occurs_ci_append: "lit_matches l t \<Longrightarrow> occurs_ci l (pre @ t)"
proof (induction pre)
  case Nil
  then show ?case by (cases t) simp_all
next
  case (Cons c pre)
  then show ?case by simp
qed

lemma piece_lit_matches: "piece_ok (Lit l) p \<Longrightarrow> lit_matches l (p @ t)"
  by (simp add: lit_matches_def)

lemma link_exec_needs_href:
  assumes "link_exec s = Some (m, rest)"
  shows "occurs_ci (js ''href=\"'') s"
proof -
  from link_exec_pieces [OF assms] obtain p0 p1 p2 p3 t where
    "s = p0 @ p1 @ p2 @ p3 @ t" "piece_ok (Lit (js ''href=\"'')) p3"
    by (metis (no_types) append.assoc)
  then show ?thesis
    using occurs_ci_append [of "js ''href=\"''" "p3 @ t" "p0 @ p1 @ p2"] piece_lit_matches
    by simp
qed

lemma segments_no_href:
  "\<not> occurs_ci (js ''href=\"'') s \<Longrightarrow> segments s = map Unmatched s"
proof (induction s)
  case Nil
  with link_exec_needs_href [of "[]"] have "link_exec [] = None"
    by (cases "link_exec []") auto
  then show ?case unfolding segments.simps [of "[]"] by simp
next
  case (Cons c s)
  with link_exec_needs_href [of "c # s"] have "link_exec (c # s) = None"
    by (cases "link_exec (c # s)") auto
  moreover from Cons have "segments s = map Unmatched s" by simp
  ultimately show ?case unfolding segments.simps [of "c # s"] by simp
qed

lemma join_unmatched: "join_outputs (map (seg_output base tid) (map Unmatched s)) = Inr s"
  by (induction s) simp_all

text \<open>
  C10, as stated, fails: the value of a single-quoted href can hold the text
  \<open>href="\<close> itself, and then the pattern matches inside it and the anchor is
  rewritten.
\<close>

theorem single_quoted_href_rewritten:
  "rewriteLinksForTracking (js ''http://localhost:4000'')
     (js ''<a href=' href=\"https://x.com\"'>link</a>'') (js ''abc123'') =
   Inr (js ''<a href=\"http://localhost:4000/api/click?id=abc123&url=https%3A%2F%2Fx.com\"'>link</a>'')"
  by (simp add: evaluation)

text \<open>
  C10, amended. The pattern matches only where the text \<open>href="\<close> stands (in any
  letter case): a fragment in which it does not occur, such as an anchor whose href
  is single-quoted or unquoted, is returned unchanged.
\<close>

theorem no_double_quoted_href_unchanged:
  assumes "\<not> occurs_ci (js ''href=\"'') html"
  shows "rewriteLinksForTracking base html tid = Inr html"
  by (simp only: rewriteLinksForTracking_def segments_no_href [OF assms] join_unmatched)

theorem no_double_quoted_href_unchanged_witness:
  "\<not> occurs_ci (js ''href=\"'') (js ''<a href='https://x.com'>link</a>'') \<and>
   rewriteLinksForTracking (js ''http://localhost:4000'') (js ''<a href='https://x.com'>link</a>'')
     (js ''abc123'') = Inr (js ''<a href='https://x.com'>link</a>'')"
proof -
  have h: "\<not> occurs_ci (js ''href=\"'') (js ''<a href='https://x.com'>link</a>'')"
    by (simp add: js_def lit_matches_def canonicalize_def)
  from h no_double_quoted_href_unchanged [OF h] show ?thesis by simp
qed

subsection \<open>Plain anchors\<close>

text \<open>
  The pattern on an anchor whose only attribute is a double-quoted href,
  \<open><a href="u">t</a>\<close>: when \<open>u\<close> has neither a double quote nor white space, and
  \<open>t\<close> has no line terminator and no closing tag of its own, the pattern matches the
  whole anchor, with \<open>u\<close> as the url, no attributes and \<open>t\<close> as the content. Each atom
  of the pattern is followed in turn.
\<close>

lemma rx_try_none: "(\<And>j. j \<in> set ks \<Longrightarrow> rx_match r (drop j s) = None) \<Longrightarrow> rx_try ks r s = None"
  by (induction ks) simp_all

lemma rx_try_first:
  assumes "\<And>j. j \<in> set ks \<Longrightarrow> rx_match r (drop j s) = None"
    and "rx_match r (drop k s) = Some (ps, rest)"
  shows "rx_try (ks @ k # ks') r s = Some (take k s # ps, rest)"
  using assms by (induction ks) simp_all

lemma takeWhile_stops:
  assumes "\<And>x. x \<in> set xs \<Longrightarrow> P x" and "\<not> P y"
  shows "takeWhile P (xs @ y # ys) = xs"
  using assms by (induction xs) simp_all

lemma takeWhile_short:
  assumes "x \<in> set xs" "\<not> P x"
  shows "length (takeWhile P (xs @ ys)) < length xs"
  using assms by (induction xs) auto

lemma takeWhile_long:
  assumes "\<And>x. x \<in> set xs \<Longrightarrow> P x"
  shows "length xs \<le> length (takeWhile P (xs @ ys))"
  using assms by (induction xs) simp_all

lemma counts_lazy: "counts Lazy 0 n = [0..<Suc n]"
  by (simp add: counts_def)

lemma counts_greedy_0: "counts Greedy 0 n = n # rev [0..<n]"
  by (simp add: counts_def)

lemma upt_split: "k \<le> n \<Longrightarrow> [0..<Suc n] = [0..<k] @ k # [Suc k..<Suc n]"
proof -
  assume k: "k \<le> n"
  then have "[0..<Suc n] = [0..<k] @ [k..<Suc n]"
    using upt_add_eq_append [of 0 k "Suc n - k"] by simp
  moreover from k have "[k..<Suc n] = k # [Suc k..<Suc n]"
    by (simp add: upt_conv_Cons)
  ultimately show ?thesis by simp
qed

lemma canonicalize_ascii_upper:
  "0x61 \<le> unat c \<Longrightarrow> unat c \<le> 0x7A \<Longrightarrow> unat (canonicalize c) = unat c - 0x20"
proof -
  assume a: "0x61 \<le> unat c" "unat c \<le> 0x7A"
  then have "(0x20 :: code_unit) \<le> c" by (simp add: word_le_nat_alt)
  then have "unat (c - 0x20) = unat c - unat (0x20 :: code_unit)" by (rule unat_sub)
  with a show ?thesis by (simp add: canonicalize_def)
qed

lemma canonicalize_not_punct:
  assumes "unat p < 0x41"
  shows "canonicalize c = p \<longleftrightarrow> c = p"
proof (cases "0x61 \<le> unat c \<and> unat c \<le> 0x7A")
  case True
  with canonicalize_ascii_upper [of c] have "unat (canonicalize c) = unat c - 0x20" by simp
  with True assms have "unat (canonicalize c) \<noteq> unat p" "unat c \<noteq> unat p" by linarith+
  then show ?thesis by auto
next
  case False
  then show ?thesis by (auto simp: canonicalize_def)
qed

lemma not_quote_class: "in_class (NotChar 0x22) c \<longleftrightarrow> c \<noteq> 0x22"
  using canonicalize_not_punct [of "0x22" c] by (simp add: canonicalize_def)

lemma not_gt_class: "in_class (NotChar 0x3E) c \<longleftrightarrow> c \<noteq> 0x3E"
  using canonicalize_not_punct [of "0x3E" c] by (simp add: canonicalize_def)

lemma closing_tag:
  "rx_match [Lit (js ''</a>'')] (js ''</a>'' @ rest) = Some ([js ''</a>''], rest)"
  by (simp add: lit_matches_def js_def)

lemma lit_matches_window:
  assumes "lit_matches l (d @ l @ rest)" and "d \<noteq> []"
  shows "lit_matches l (d @ butlast l)"
proof -
  from assms(2) have n: "length l \<le> length d + length (butlast l)"
    by (cases d) simp_all
  have "take (length l) (d @ l @ rest) = take (length l) (d @ butlast l)"
  proof -
    have "take (length l - length d) (l @ rest) = take (length l - length d) l"
      by simp
    also have "\<dots> = take (length l - length d) (butlast l)"
      using assms(2) by (cases d) (simp_all add: butlast_conv_take)
    finally show ?thesis by simp
  qed
  with assms(1) n show ?thesis by (simp add: lit_matches_def)
qed

lemma occurs_ci_drop: "lit_matches l (drop j s) \<Longrightarrow> occurs_ci l s"
proof (induction s arbitrary: j)
  case Nil
  then show ?case by simp
next
  case (Cons c s)
  then show ?case by (cases j) auto
qed

lemma content_matches:
  assumes "\<And>c. c \<in> set t \<Longrightarrow> \<not> is_line_terminator c"
    and "\<not> occurs_ci (js ''</a>'') (t @ js ''</a'')"
  shows "rx_match [Rep Lazy 0 Dot, Lit (js ''</a>'')] (t @ js ''</a>'' @ rest) =
         Some ([t, js ''</a>''], rest)"
proof -
  let ?s = "t @ js ''</a>'' @ rest"
  let ?n = "length (takeWhile (in_class Dot) ?s)"
  have b: "butlast (js ''</a>'') = js ''</a''" by (simp add: js_def)
  have n: "length t \<le> ?n"
    using assms(1) by (intro takeWhile_long) simp
  have early: "rx_match [Lit (js ''</a>'')] (drop j ?s) = None" if "j \<in> set [0..<length t]" for j
  proof -
    from that have j: "j < length t" by simp
    then have d: "drop j ?s = drop j t @ js ''</a>'' @ rest" "drop j t \<noteq> []" by simp_all
    have "\<not> lit_matches (js ''</a>'') (drop j ?s)"
    proof
      assume "lit_matches (js ''</a>'') (drop j ?s)"
      with d have "lit_matches (js ''</a>'') (drop j t @ js ''</a'')"
        using lit_matches_window [of "js ''</a>''" "drop j t" rest] b by simp
      with j have "lit_matches (js ''</a>'') (drop j (t @ js ''</a''))" by simp
      from occurs_ci_drop [OF this] assms(2) show False by blast
    qed
    then show ?thesis by simp
  qed
  have "drop (length t) ?s = js ''</a>'' @ rest" by simp
  then have here: "rx_match [Lit (js ''</a>'')] (drop (length t) ?s) = Some ([js ''</a>''], rest)"
    by (simp only: closing_tag)
  have "rx_match [Rep Lazy 0 Dot, Lit (js ''</a>'')] ?s =
        rx_try ([0..<length t] @ length t # [Suc (length t)..<Suc ?n]) [Lit (js ''</a>'')] ?s"
    by (simp only: rx_match.simps counts_lazy upt_split [OF n])
  also have "\<dots> = Some (take (length t) ?s # [js ''</a>''], rest)"
    using early here by (rule rx_try_first)
  finally show ?thesis by simp
qed

text \<open>One step of the matcher for each kind of atom of the pattern.\<close>

lemma lit_step:
  "rx_match (Lit l # r) (l @ s) =
     (case rx_match r s of None \<Rightarrow> None | Some (ps, rest) \<Rightarrow> Some (l # ps, rest))"
  by (simp add: lit_matches_def split: option.splits)

lemma space_step:
  assumes "takeWhile (in_class Space) s = []"
  shows "rx_match (Rep Greedy 1 Space # r) (js '' '' @ s) =
     (case rx_match r s of None \<Rightarrow> None | Some (ps, rest) \<Rightarrow> Some (js '' '' # ps, rest))"
proof -
  have "takeWhile (in_class Space) (js '' '' @ s) = js '' ''"
    using assms by (simp add: js_def is_white_space_def)
  then have "rx_match (Rep Greedy 1 Space # r) (js '' '' @ s) = rx_try [1] r (js '' '' @ s)"
    by (simp add: counts_def js_def)
  then show ?thesis
    by (simp add: js_def split: option.splits)
qed

lemma opt_skip:
  assumes "rx_match (g @ r) s = None"
  shows "rx_match (Opt g # r) s =
     (case rx_match r s of None \<Rightarrow> None | Some (ps, rest) \<Rightarrow> Some ([] # ps, rest))"
  using assms by simp

lemma group_fails:
  assumes "\<And>x. x \<in> set p \<Longrightarrow> \<not> in_class Space x" and "0x3E \<in> set p"
  shows "rx_match ([Rep Lazy 0 (NotChar 0x3E), Rep Greedy 1 Space] @ r) (p @ y) = None"
proof -
  let ?n = "length (takeWhile (in_class (NotChar 0x3E)) (p @ y))"
  have n: "?n < length p"
    using assms(2) by (rule takeWhile_short) (simp add: not_gt_class)
  have "rx_match (Rep Greedy 1 Space # r) (drop j (p @ y)) = None" if "j \<in> set [0..<Suc ?n]" for j
  proof -
    from that n have j: "j < length p" by auto
    then obtain x xs where d: "drop j p = x # xs"
      by (cases "drop j p") simp_all
    then have "x \<in> set p" by (metis in_set_dropD list.set_intros(1))
    with assms(1) have "\<not> in_class Space x" by blast
    with j d have "takeWhile (in_class Space) (drop j (p @ y)) = []" by simp
    then show ?thesis by (simp add: counts_def)
  qed
  then have "rx_try [0..<Suc ?n] (Rep Greedy 1 Space # r) (p @ y) = None"
    by (rule rx_try_none)
  then show ?thesis by (simp add: counts_def)
qed

lemma url_step:
  assumes "0x22 \<notin> set u" and "rx_match r (js ''\"'' @ s) = Some (ps, rest)"
  shows "rx_match (Rep Greedy 0 (NotChar 0x22) # r) (u @ js ''\"'' @ s) = Some (u # ps, rest)"
proof -
  have "takeWhile (in_class (NotChar 0x22)) (u @ 0x22 # s) = u"
    using assms(1) by (intro takeWhile_stops) (auto simp: not_quote_class simp del: in_class.simps)
  then have "rx_match (Rep Greedy 0 (NotChar 0x22) # r) (u @ js ''\"'' @ s) =
      rx_try (length u # rev [0..<length u]) r (u @ js ''\"'' @ s)"
    by (simp add: js_def counts_greedy_0)
  with assms(2) show ?thesis by simp
qed

lemma attributes_step:
  assumes "rx_match r (js ''>'' @ s) = Some (ps, rest)"
  shows "rx_match (Rep Greedy 0 (NotChar 0x3E) # r) (js ''>'' @ s) = Some ([] # ps, rest)"
proof -
  have "takeWhile (in_class (NotChar 0x3E)) (js ''>'' @ s) = []"
    by (simp add: js_def not_gt_class)
  then have "rx_match (Rep Greedy 0 (NotChar 0x3E) # r) (js ''>'' @ s) = rx_try [0] r (js ''>'' @ s)"
    by (simp add: counts_def)
  with assms show ?thesis by simp
qed

lemma plain_anchor_source:
  "js ''<a href=\"'' @ u @ js ''\">'' @ t @ js ''</a>'' @ rest =
   js ''<a'' @ js '' '' @ js ''href=\"'' @ u @ js ''\"'' @ js ''>'' @ t @ js ''</a>'' @ rest"
  by (simp add: js_def)

lemma plain_anchor_matches:
  assumes u: "0x22 \<notin> set u" "\<And>c. c \<in> set u \<Longrightarrow> \<not> in_class Space c"
    and t: "\<And>c. c \<in> set t \<Longrightarrow> \<not> is_line_terminator c"
      "\<not> occurs_ci (js ''</a>'') (t @ js ''</a'')"
  shows "link_exec (js ''<a href=\"'' @ u @ js ''\">'' @ t @ js ''</a>'' @ rest) =
    Some (\<lparr>matched = js ''<a href=\"'' @ u @ js ''\">'' @ t @ js ''</a>'',
            url = u, attributes = [], content = t\<rparr>, rest)"
proof -
  let ?r8 = "[Rep Lazy 0 Dot, Lit (js ''</a>'')]"
  let ?r7 = "Lit (js ''>'') # ?r8"
  let ?r6 = "Rep Greedy 0 (NotChar 0x3E) # ?r7"
  let ?r5 = "Lit (js ''\"'') # ?r6"
  let ?r4 = "Rep Greedy 0 (NotChar 0x22) # ?r5"
  let ?r3 = "Lit (js ''href=\"'') # ?r4"
  let ?g = "[Rep Lazy 0 (NotChar 0x3E), Rep Greedy 1 Space]"
  let ?r2 = "Opt ?g # ?r3"
  let ?r1 = "Rep Greedy 1 Space # ?r2"
  let ?s8 = "t @ js ''</a>'' @ rest"
  let ?s7 = "js ''>'' @ ?s8"
  let ?s5 = "js ''\"'' @ ?s7"
  let ?s4 = "u @ ?s5"
  let ?s3 = "js ''href=\"'' @ ?s4"
  let ?s1 = "js '' '' @ ?s3"
  have c8: "rx_match ?r8 ?s8 = Some ([t, js ''</a>''], rest)"
    using t by (rule content_matches)
  have c7: "rx_match ?r7 ?s7 = Some ([js ''>'', t, js ''</a>''], rest)"
    by (simp only: lit_step c8 option.case prod.case)
  have c6: "rx_match ?r6 ?s7 = Some ([[], js ''>'', t, js ''</a>''], rest)"
    using c7 by (rule attributes_step)
  have c5: "rx_match ?r5 ?s5 = Some ([js ''\"'', [], js ''>'', t, js ''</a>''], rest)"
    by (simp only: lit_step c6 option.case prod.case)
  have c4: "rx_match ?r4 ?s4 = Some ([u, js ''\"'', [], js ''>'', t, js ''</a>''], rest)"
    using u(1) c5 by (rule url_step)
  have c3: "rx_match ?r3 ?s3 =
      Some ([js ''href=\"'', u, js ''\"'', [], js ''>'', t, js ''</a>''], rest)"
    by (simp only: lit_step c4 option.case prod.case)
  have "rx_match (?g @ ?r3) ((js ''href=\"'' @ u @ js ''\">'') @ ?s8) = None"
  proof (rule group_fails)
    fix x assume "x \<in> set (js ''href=\"'' @ u @ js ''\">'')"
    then have "x \<in> set (js ''href=\"\">'') \<or> x \<in> set u"
      by (auto simp: js_def)
    then show "\<not> in_class Space x"
    proof
      assume "x \<in> set (js ''href=\"\">'')"
      then show ?thesis by (auto simp: js_def is_white_space_def is_line_terminator_def)
    next
      assume "x \<in> set u"
      then show ?thesis by (rule u(2))
    qed
  next
    show "0x3E \<in> set (js ''href=\"'' @ u @ js ''\">'')" by (simp add: js_def)
  qed
  moreover have "(js ''href=\"'' @ u @ js ''\">'') @ ?s8 = ?s3" by (simp add: js_def)
  ultimately have g: "rx_match (?g @ ?r3) ?s3 = None" by (simp only:)
  have c2: "rx_match ?r2 ?s3 =
      Some ([[], js ''href=\"'', u, js ''\"'', [], js ''>'', t, js ''</a>''], rest)"
    by (simp only: opt_skip [OF g] c3 option.case prod.case)
  have "takeWhile (in_class Space) ?s3 = []"
    by (simp add: js_def is_white_space_def is_line_terminator_def)
  then have c1: "rx_match ?r1 ?s1 =
      Some ([js '' '', [], js ''href=\"'', u, js ''\"'', [], js ''>'', t, js ''</a>''], rest)"
    by (simp only: space_step c2 option.case prod.case)
  have c0: "rx_match linkRegex (js ''<a'' @ ?s1) =
      Some ([js ''<a'', js '' '', [], js ''href=\"'', u, js ''\"'', [], js ''>'', t, js ''</a>''], rest)"
    unfolding linkRegex_def by (simp only: lit_step c1 option.case prod.case)
  show ?thesis
    unfolding plain_anchor_source link_exec_def
    by (simp only: c0 option.case prod.case list.case) (simp add: js_def)
qed

lemma link_exec_empty: "link_exec [] = None"
  by (simp add: link_exec_def linkRegex_def lit_matches_def js_def)

lemma segments_empty: "segments [] = []"
  by (simp add: segments.simps [of "[]"] link_exec_empty)

lemma plain_anchor_segments:
  assumes "0x22 \<notin> set u" "\<And>c. c \<in> set u \<Longrightarrow> \<not> in_class Space c"
    and "\<And>c. c \<in> set t \<Longrightarrow> \<not> is_line_terminator c"
      "\<not> occurs_ci (js ''</a>'') (t @ js ''</a'')"
  shows "segments (js ''<a href=\"'' @ u @ js ''\">'' @ t @ js ''</a>'' @ rest) =
    Matched \<lparr>matched = js ''<a href=\"'' @ u @ js ''\">'' @ t @ js ''</a>'',
             url = u, attributes = [], content = t\<rparr> # segments rest"
proof -
  let ?s = "js ''<a href=\"'' @ u @ js ''\">'' @ t @ js ''</a>'' @ rest"
  have l: "length rest < length ?s" by (simp add: js_def)
  have m: "link_exec ?s = Some (\<lparr>matched = js ''<a href=\"'' @ u @ js ''\">'' @ t @ js ''</a>'',
             url = u, attributes = [], content = t\<rparr>, rest)"
    using assms by (rule plain_anchor_matches)
  show ?thesis
    by (subst segments.simps) (simp only: m option.case prod.case l if_True)
qed

text \<open>
  So a message that is one plain anchor is rewritten to the tracking template when its url
  is not exempt, and is returned as it is when its url starts with \<open>mailto:\<close> or
  \<open>#\<close>.
\<close>

lemma plain_anchor_rewritten:
  assumes "0x22 \<notin> set u" "\<And>c. c \<in> set u \<Longrightarrow> \<not> in_class Space c"
    and "\<And>c. c \<in> set t \<Longrightarrow> \<not> is_line_terminator c"
      "\<not> occurs_ci (js ''</a>'') (t @ js ''</a'')"
    and "\<not> startsWith u (js ''mailto:'')" "\<not> startsWith u (js ''#'')"
    and "encodeURIComponent u = Inr e"
  shows "rewriteLinksForTracking base (js ''<a href=\"'' @ u @ js ''\">'' @ t @ js ''</a>'') tid =
    Inr (js ''<a href=\"'' @ base @ js ''/api/click?id='' @ tid @ js ''&url='' @ e @
         js ''\">'' @ t @ js ''</a>'')"
proof -
  have "segments (js ''<a href=\"'' @ u @ js ''\">'' @ t @ js ''</a>'' @ []) =
      [Matched \<lparr>matched = js ''<a href=\"'' @ u @ js ''\">'' @ t @ js ''</a>'',
             url = u, attributes = [], content = t\<rparr>]"
    using plain_anchor_segments [OF assms(1-4), of "[]"] by (simp only: segments_empty)
  then show ?thesis
    using assms(5-7) by (simp add: rewriteLinksForTracking_def replacer_def js_def)
qed

lemma plain_exempt_anchor_unchanged:
  assumes "0x22 \<notin> set u" "\<And>c. c \<in> set u \<Longrightarrow> \<not> in_class Space c"
    and "\<And>c. c \<in> set t \<Longrightarrow> \<not> is_line_terminator c"
      "\<not> occurs_ci (js ''</a>'') (t @ js ''</a'')"
    and "startsWith u (js ''mailto:'') \<or> startsWith u (js ''#'')"
  shows "rewriteLinksForTracking base (js ''<a href=\"'' @ u @ js ''\">'' @ t @ js ''</a>'') tid =
    Inr (js ''<a href=\"'' @ u @ js ''\">'' @ t @ js ''</a>'')"
proof -
  have "segments (js ''<a href=\"'' @ u @ js ''\">'' @ t @ js ''</a>'' @ []) =
      [Matched \<lparr>matched = js ''<a href=\"'' @ u @ js ''\">'' @ t @ js ''</a>'',
             url = u, attributes = [], content = t\<rparr>]"
    using plain_anchor_segments [OF assms(1-4), of "[]"] by (simp only: segments_empty)
  then show ?thesis
    using assms(5) by (simp add: rewriteLinksForTracking_def replacer_def)
qed

section \<open>The engagement state machine\<close>

lemma click_existing:
  assumes "db k = Some t"
  shows "snd (click e rq q db) k = Some (step_record k (Click e rq q) t)"
  using assms
  by (auto simp: click_def click_try_def findOne_def updateOne_def step_record_def engaged_def
      recorded_def truthy_def redirect_decoded_def
      split: option.splits sum.splits prod.splits if_splits)

lemma pixel_existing:
  assumes "db k = Some t"
  shows "snd (pixel e rq k' db) k = Some (step_record k (Pixel e rq k') t)"
  using assms
  by (auto simp: pixel_def pixel_try_def findOne_def updateOne_def step_record_def engaged_def
      recorded_def split: option.splits sum.splits prod.splits if_splits)

lemma send_existing:
  assumes "db k = Some t"
  shows "snd (send_email base e b db) k = Some t"
  using assms
  by (auto simp: send_email_def create_def new_tracking_def
      split: option.splits sum.splits prod.splits if_splits)

lemma handle_existing:
  "db k = Some t \<Longrightarrow> snd (handle base r db) k = Some (step_record k r t)"
  by (cases r) (simp_all add: click_existing pixel_existing send_existing step_record_def recorded_def)

lemma run_existing:
  "db k = Some t \<Longrightarrow> run base rs db k = Some (foldl (\<lambda>t r. step_record k r t) t rs)"
  unfolding run_def
  by (induction rs arbitrary: db t) (simp_all add: handle_existing)



lemma recorded_events_simps:
  "recorded_events k [] = []"
  "recorded_events k (r # rs) = (if recorded k r then r # recorded_events k rs else recorded_events k rs)"
  by (simp_all add: recorded_events_def)

lemma recorded_channel: "recorded k r \<Longrightarrow> \<exists>c. request_channel r = Some c"
  by (cases r) (simp_all add: recorded_def)

lemma engaged_fields:
  assumes "consistent t" "recorded k r"
  shows "status (engaged r t) = OPENED"
    and "openedAt (engaged r t) = Some (case openedAt t of Some d \<Rightarrow> d | None \<Rightarrow> clock (request_env r))"
    and "method' (engaged r t) = (case method' t of Some m \<Rightarrow> Some m | None \<Rightarrow> request_channel r)"
    and "openCount (engaged r t) = number_add_one (openCount t)"
  using assms
  by (cases r; cases "status t";
      auto simp: engaged_def consistent_def apply_update_def click_updateData_def
        pixel_updateData_def recorded_def split: option.splits)+

lemma engaged_consistent:
  assumes "consistent t" "recorded k r"
  shows "consistent (engaged r t)"
  using engaged_fields [OF assms] recorded_channel [OF assms(2)]
  by (auto simp: consistent_def split: option.splits)

lemma replay_simps:
  "replay k [] t = t"
  "replay k (r # rs) t = replay k rs (if recorded k r then engaged r t else t)"
  by (simp_all add: replay_def step_record_def)

lemma replay_consistent: "consistent t \<Longrightarrow> consistent (replay k rs t)"
  by (induction rs arbitrary: t) (simp_all add: replay_simps engaged_consistent)

lemma replay_status:
  "consistent t \<Longrightarrow> status (replay k rs t) = (if recorded_events k rs = [] then status t else OPENED)"
proof (induction rs arbitrary: t)
  case Nil
  then show ?case by (simp add: replay_simps recorded_events_simps)
next
  case (Cons r rs)
  show ?case
  proof (cases "recorded k r")
    case False
    with Cons show ?thesis by (simp add: replay_simps recorded_events_simps)
  next
    case True
    with Cons.IH [OF engaged_consistent [OF Cons.prems True]]
      engaged_fields(1) [OF Cons.prems True]
    show ?thesis by (simp add: replay_simps recorded_events_simps)
  qed
qed

lemma replay_openedAt:
  "consistent t \<Longrightarrow> openedAt t = None \<Longrightarrow>
   openedAt (replay k rs t) =
     (case recorded_events k rs of [] \<Rightarrow> None | r # _ \<Rightarrow> Some (clock (request_env r)))"
  "consistent t \<Longrightarrow> openedAt t = Some d \<Longrightarrow> openedAt (replay k rs t) = Some d"
proof (induction rs arbitrary: t d)
  case Nil
  { case 1 then show ?case by (simp add: replay_simps recorded_events_simps) }
  { case 2 then show ?case by (simp add: replay_simps recorded_events_simps) }
next
  case (Cons r rs)
  { case 1
    show ?case
    proof (cases "recorded k r")
      case False
      with Cons(1) [OF 1] show ?thesis by (simp add: replay_simps recorded_events_simps)
    next
      case True
      with Cons(2) [OF engaged_consistent [OF 1(1) True]]
        engaged_fields(2) [OF 1(1) True] 1(2)
      show ?thesis by (simp add: replay_simps recorded_events_simps)
    qed }
  { case 2
    show ?case
    proof (cases "recorded k r")
      case False
      with Cons(2) [OF 2] show ?thesis by (simp add: replay_simps)
    next
      case True
      with Cons(2) [OF engaged_consistent [OF 2(1) True]]
        engaged_fields(2) [OF 2(1) True] 2(2)
      show ?thesis by (simp add: replay_simps)
    qed }
qed

lemma replay_method:
  "consistent t \<Longrightarrow> method' t = None \<Longrightarrow>
   method' (replay k rs t) =
     (case recorded_events k rs of [] \<Rightarrow> None | r # _ \<Rightarrow> request_channel r)"
  "consistent t \<Longrightarrow> method' t = Some m \<Longrightarrow> method' (replay k rs t) = Some m"
proof (induction rs arbitrary: t m)
  case Nil
  { case 1 then show ?case by (simp add: replay_simps recorded_events_simps) }
  { case 2 then show ?case by (simp add: replay_simps recorded_events_simps) }
next
  case (Cons r rs)
  { case 1
    show ?case
    proof (cases "recorded k r")
      case False
      with Cons(1) [OF 1] show ?thesis by (simp add: replay_simps recorded_events_simps)
    next
      case True
      obtain c where c: "request_channel r = Some c"
        using recorded_channel [OF True] by blast
      with True Cons(2) [OF engaged_consistent [OF 1(1) True]]
        engaged_fields(3) [OF 1(1) True] 1(2)
      show ?thesis by (simp add: replay_simps recorded_events_simps)
    qed }
  { case 2
    show ?case
    proof (cases "recorded k r")
      case False
      with Cons(2) [OF 2] show ?thesis by (simp add: replay_simps)
    next
      case True
      with Cons(2) [OF engaged_consistent [OF 2(1) True]]
        engaged_fields(3) [OF 2(1) True] 2(2)
      show ?thesis by (simp add: replay_simps)
    qed }
qed

lemma replay_openCount:
  "consistent t \<Longrightarrow>
   openCount (replay k rs t) = (number_add_one ^^ length (recorded_events k rs)) (openCount t)"
proof (induction rs arbitrary: t)
  case Nil
  then show ?case by (simp add: replay_simps recorded_events_simps)
next
  case (Cons r rs)
  show ?case
  proof (cases "recorded k r")
    case False
    with Cons show ?thesis by (simp add: replay_simps recorded_events_simps)
  next
    case True
    with Cons.IH [OF engaged_consistent [OF Cons.prems True]]
      engaged_fields(4) [OF Cons.prems True]
    show ?thesis by (simp add: replay_simps recorded_events_simps funpow_swap1)
  qed
qed

lemma add_one_iterated: "(number_add_one ^^ n) 0 = min n (2 ^ 53)"
proof (induction n)
  case 0
  then show ?case by simp
next
  case (Suc n)
  then show ?case by (auto simp: number_add_one_def min_def)
qed

lemma created_record:
  assumes "db k = None" and "snd (send_email base e b db) k = Some t"
  shows "status t = SENT \<and> openedAt t = None \<and> method' t = None \<and> openCount t = 0 \<and>
         trackingId t = k \<and> sentAt t = clock e"
  using assms
  by (auto simp: send_email_def create_def new_tracking_def
      split: option.splits sum.splits prod.splits if_splits)

lemma run_replay: "db k = Some t \<Longrightarrow> run base rs db k = Some (replay k rs t)"
  by (simp add: run_existing replay_def)

lemma created_consistent:
  assumes "db k = None" and "snd (handle base (SendEmail e b) db) k = Some t"
  shows "consistent t"
  using created_record [of db k base e b t] assms
  by (simp add: consistent_def)

lemma click_pending_ok:
  "db k = Some t \<Longrightarrow> consistent t \<Longrightarrow> pending_ok db (k, click_updateData e rq t)"
  by (cases "status t") (auto simp: pending_ok_def click_updateData_def consistent_def)

lemma pixel_pending_ok:
  "db k = Some t \<Longrightarrow> consistent t \<Longrightarrow> pending_ok db (k, pixel_updateData e rq t)"
  by (cases "status t") (auto simp: pending_ok_def pixel_updateData_def consistent_def)

lemma apply_update_consistent:
  assumes "db k = Some t" "consistent t" "pending_ok db (k, u)"
  shows "consistent (apply_update u t)"
  using assms
  by (cases "set_status u"; cases "set_openedAt u"; cases "set_method u")
     (auto simp: pending_ok_def consistent_def apply_update_def)

lemma apply_update_status:
  assumes "db k = Some t" "pending_ok db (k, u)" "status t = OPENED"
  shows "status (apply_update u t) = OPENED"
  using assms
  by (cases "set_status u") (auto simp: pending_ok_def apply_update_def)

lemma send_store:
  "snd (send_email base e b db) = db \<or>
   (\<exists>k recipient text. db k = None \<and>
      snd (send_email base e b db) = db(k \<mapsto> new_tracking e b k recipient text))"
  by (auto simp: send_email_def create_def new_tracking_def
      split: option.splits sum.splits prod.splits if_splits)

lemma new_tracking_consistent: "consistent (new_tracking e b k recipient text)"
  by (simp add: consistent_def new_tracking_def)

lemma pending_ok_mono:
  assumes "pending_ok db p" and "\<And>k t. db k = Some t \<Longrightarrow> status t = OPENED \<Longrightarrow>
     (\<exists>t'. db' k = Some t' \<and> status t' = OPENED)"
  shows "pending_ok db' p"
proof -
  obtain k u where p: "p = (k, u)" by (cases p)
  show ?thesis
  proof (cases "db k")
    case None
    with assms(1) show ?thesis
      unfolding p pending_ok_def by (auto split: option.splits)
  next
    case (Some t)
    show ?thesis
    proof (cases "status t = OPENED")
      case True
      from assms(2) [OF Some True] obtain t' where "db' k = Some t'" "status t' = OPENED" by blast
      with assms(1) Some show ?thesis
        unfolding p pending_ok_def by (auto split: option.splits)
    next
      case False
      with assms(1) Some show ?thesis
        unfolding p pending_ok_def by (auto split: option.splits)
    qed
  qed
qed

lemma reachable_inv:
  "reachable base db ps \<Longrightarrow> store_ok db \<and> list_all (pending_ok db) ps"
proof (induction rule: reachable.induct)
  case reachable_empty
  then show ?case by (simp add: store_ok_def)
next
  case (reachable_send db ps e b)
  from send_store [of base e b db] show ?case
  proof
    assume "snd (send_email base e b db) = db"
    with reachable_send.IH show ?thesis by simp
  next
    assume "\<exists>k recipient text. db k = None \<and>
      snd (send_email base e b db) = db(k \<mapsto> new_tracking e b k recipient text)"
    then obtain k recipient msg where n: "db k = None"
      and s: "snd (send_email base e b db) = db(k \<mapsto> new_tracking e b k recipient msg)"
      by blast
    from reachable_send.IH have "store_ok (db(k \<mapsto> new_tracking e b k recipient msg))"
      by (auto simp: store_ok_def new_tracking_consistent)
    moreover have "pending_ok (db(k \<mapsto> new_tracking e b k recipient msg)) p"
      if "pending_ok db p" for p
      using that
    proof (rule pending_ok_mono)
      fix k' t'
      assume "db k' = Some t'" "status t' = OPENED"
      with n show "\<exists>t''. (db(k \<mapsto> new_tracking e b k recipient msg)) k' = Some t'' \<and>
          status t'' = OPENED"
        by auto
    qed
    with reachable_send.IH have "list_all (pending_ok (db(k \<mapsto> new_tracking e b k recipient msg))) ps"
      by (auto simp: list_all_iff)
    ultimately show ?thesis by (simp only: s)
  qed
next
  case (reachable_click_found db ps k t e rq)
  then show ?case by (auto simp: store_ok_def intro: click_pending_ok)
next
  case (reachable_pixel_found db ps k t e rq)
  then show ?case by (auto simp: store_ok_def intro: pixel_pending_ok)
next
  case (reachable_written db ps k u qs e db')
  from reachable_written.IH have ok: "store_ok db" and pu: "pending_ok db (k, u)"
    and rest: "list_all (pending_ok db) (ps @ qs)"
    by simp_all
  show ?case
  proof (cases "db k")
    case None
    with reachable_written.hyps(2) have "db' = db"
      by (auto simp: updateOne_def split: if_splits)
    with ok rest show ?thesis by simp
  next
    case (Some t)
    with reachable_written.hyps(2) have d: "db' = db(k \<mapsto> apply_update u t)"
      by (auto simp: updateOne_def split: if_splits)
    from ok Some have c: "consistent t" by (simp add: store_ok_def)
    from apply_update_consistent [OF Some c pu] ok have "store_ok db'"
      by (auto simp: d store_ok_def)
    moreover have "pending_ok db' p" if "pending_ok db p" for p
      using that
    proof (rule pending_ok_mono)
      fix k' t'
      assume "db k' = Some t'" "status t' = OPENED"
      with Some apply_update_status [OF Some pu]
      show "\<exists>t''. db' k' = Some t'' \<and> status t'' = OPENED"
        by (auto simp: d)
    qed
    with rest have "list_all (pending_ok db') (ps @ qs)"
      by (auto simp: list_all_iff)
    ultimately show ?thesis by simp
  qed
next
  case (reachable_lost db ps k u qs)
  then show ?case by simp
qed

lemma handle_reachable:
  assumes "reachable base db ps"
  shows "reachable base (snd (handle base r db)) ps"
proof (cases r)
  case (SendEmail e b)
  with assms show ?thesis by (simp add: reachable_send)
next
  case (Click e rq q)
  show ?thesis
  proof (cases "\<exists>k t. q_id q = Some k \<and> db k = Some t \<and> snd (click e rq q db) \<noteq> db")
    case False
    then have "snd (click e rq q db) = db"
      by (auto simp: click_def click_try_def findOne_def updateOne_def
          split: option.splits sum.splits prod.splits if_splits)
    with assms Click show ?thesis by simp
  next
    case True
    then obtain k t where k: "q_id q = Some k" "db k = Some t" "snd (click e rq q db) \<noteq> db"
      by blast
    then have u: "updateOne e db k (click_updateData e rq t) = Inr (snd (click e rq q db))"
      by (auto simp: click_def click_try_def findOne_def updateOne_def
          split: option.splits sum.splits prod.splits if_splits)
    from reachable_click_found [OF assms k(2), of e rq]
    have "reachable base db ([] @ (k, click_updateData e rq t) # ps)" by simp
    from reachable_written [OF this u] Click show ?thesis by simp
  qed
next
  case (Pixel e rq k)
  show ?thesis
  proof (cases "\<exists>t. db k = Some t \<and> snd (pixel e rq k db) \<noteq> db")
    case False
    then have "snd (pixel e rq k db) = db"
      by (auto simp: pixel_def pixel_try_def findOne_def updateOne_def
          split: option.splits sum.splits prod.splits if_splits)
    with assms Pixel show ?thesis by simp
  next
    case True
    then obtain t where k: "db k = Some t" "snd (pixel e rq k db) \<noteq> db"
      by blast
    then have u: "updateOne e db k (pixel_updateData e rq t) = Inr (snd (pixel e rq k db))"
      by (auto simp: pixel_def pixel_try_def findOne_def updateOne_def
          split: option.splits sum.splits prod.splits if_splits)
    from reachable_pixel_found [OF assms k(1), of e rq]
    have "reachable base db ([] @ (k, pixel_updateData e rq t) # ps)" by simp
    from reachable_written [OF this u] Pixel show ?thesis by simp
  qed
qed

lemma run_reachable: "reachable base db ps \<Longrightarrow> reachable base (run base rs db) ps"
  unfolding run_def
  by (induction rs arbitrary: db) (simp_all add: handle_reachable)

lemma created_replay:
  assumes "db k = None" and "snd (handle base (SendEmail e b) db) k = Some t0"
  shows "run base rs (snd (handle base (SendEmail e b) db)) k = Some (replay k rs t0)"
    and "consistent t0"
    and "status t0 = SENT" and "openedAt t0 = None" and "method' t0 = None" and "openCount t0 = 0"
  using assms created_record [of db k base e b t0] created_consistent [of db k base e b t0]
  by (simp_all add: run_replay)

lemma recorded_events_replicate:
  "recorded k r \<Longrightarrow> recorded_events k (replicate n r) = replicate n r"
  by (simp add: recorded_events_def)

text \<open>A send request on the empty store.\<close>

lemma sent_abc123:
  "snd (handle base (SendEmail (calm 1000) (mail ''a@b.c'' ''Hi'' ''abc123'')) Map.empty) =
   [js ''abc123'' \<mapsto> new_tracking (calm 1000) (mail ''a@b.c'' ''Hi'' ''abc123'') (js ''abc123'') (js ''a@b.c'') (js ''Hi'')]"
  by (simp add: send_email_def mail_def truthy_def create_def new_tracking_def calm_def replace_newlines_def evaluation
     split: sum.splits)

lemma sent_abc123_at:
  "snd (handle base (SendEmail (calm 1000) (mail ''a@b.c'' ''Hi'' ''abc123'')) Map.empty) (js ''abc123'') =
   Some (new_tracking (calm 1000) (mail ''a@b.c'' ''Hi'' ''abc123'') (js ''abc123'') (js ''a@b.c'') (js ''Hi''))"
  using sent_abc123 [of base] by simp

text \<open>When no call of the record store throws, every engagement event is recorded.\<close>

lemma recorded_events_all:
  assumes "\<And>r. r \<in> set rs \<Longrightarrow>
    \<not> findOne_throws (request_env r) \<and> \<not> updateOne_throws (request_env r)"
  shows "recorded_events k rs = filter (engages k) rs"
  using assms by (auto simp: recorded_events_def recorded_def intro: filter_cong)

text \<open>
  The pixel fetch and the click that overlap: both handlers find the record as it was
  created, the pixel handler writes its update, then the click handler writes its own.
\<close>

lemma overlap_reachable:
  shows "reachable base [js ''abc123'' \<mapsto> opened_by_pixel] [(js ''abc123'', stale_click)]"
    and "reachable base [js ''abc123'' \<mapsto> apply_update stale_click opened_by_pixel] []"
proof -
  let ?k = "js ''abc123''"
  let ?up = "pixel_updateData (calm 2000) nobody fresh"
  have "reachable base (snd (send_email base (calm 1000) (mail ''a@b.c'' ''Hi'' ''abc123'') Map.empty)) []"
    by (rule reachable_send [OF reachable_empty])
  with sent_abc123 [of base] have r1: "reachable base [?k \<mapsto> fresh] []" by simp
  have f: "[?k \<mapsto> fresh] ?k = Some fresh" by simp
  have r2: "reachable base [?k \<mapsto> fresh] [(?k, ?up)]"
    using r1 f by (rule reachable_pixel_found)
  have "reachable base [?k \<mapsto> fresh] ((?k, stale_click) # [(?k, ?up)])"
    using r2 f by (rule reachable_click_found)
  then have r3: "reachable base [?k \<mapsto> fresh] ([(?k, stale_click)] @ (?k, ?up) # [])" by simp
  have w1: "updateOne (calm 2000) [?k \<mapsto> fresh] ?k ?up = Inr [?k \<mapsto> opened_by_pixel]"
    by (simp add: updateOne_def calm_def)
  from reachable_written [OF r3 w1]
  show r4: "reachable base [?k \<mapsto> opened_by_pixel] [(?k, stale_click)]" by simp
  then have r4': "reachable base [?k \<mapsto> opened_by_pixel] ([] @ (?k, stale_click) # [])" by simp
  have w2: "updateOne (calm 3000) [?k \<mapsto> opened_by_pixel] ?k stale_click =
      Inr [?k \<mapsto> apply_update stale_click opened_by_pixel]"
    by (simp add: updateOne_def calm_def)
  from reachable_written [OF r4' w2]
  show "reachable base [?k \<mapsto> apply_update stale_click opened_by_pixel] []" by simp
qed

lemma overlap_fields:
  shows "status opened_by_pixel = OPENED" and "openedAt opened_by_pixel = Some 2000"
    and "method' opened_by_pixel = Some PIXEL"
    and "status (apply_update stale_click opened_by_pixel) = OPENED"
    and "openedAt (apply_update stale_click opened_by_pixel) = Some 3000"
    and "method' (apply_update stale_click opened_by_pixel) = Some CLICK"
  by (simp_all add: apply_update_def pixel_updateData_def click_updateData_def new_tracking_def
      calm_def)

text \<open>
  A pixel fetch whose \<open>findOne\<close> throws, then a click: the record after the pixel
  fetch, and after both.
\<close>

lemma failed_pixel_then_click:
  shows "run base [Pixel ((calm 2000)\<lparr>findOne_throws := True\<rparr>) nobody (js ''abc123'')]
           (snd (handle base (SendEmail (calm 1000) (mail ''a@b.c'' ''Hi'' ''abc123'')) Map.empty))
           (js ''abc123'') = Some fresh"
    and "run base
           [Pixel ((calm 2000)\<lparr>findOne_throws := True\<rparr>) nobody (js ''abc123''),
            Click (calm 3000) nobody \<lparr>q_id = Some (js ''abc123''), q_url = Some (js ''https://x.com'')\<rparr>]
           (snd (handle base (SendEmail (calm 1000) (mail ''a@b.c'' ''Hi'' ''abc123'')) Map.empty))
           (js ''abc123'') = Some (apply_update stale_click fresh)"
proof -
  let ?k = "js ''abc123''"
  have none: "(Map.empty :: store) ?k = None" by simp
  note c = created_replay [where db = Map.empty and k = ?k and base = base, OF none sent_abc123_at]
  have k: "?k \<noteq> []" by (simp add: js_def)
  show "run base [Pixel ((calm 2000)\<lparr>findOne_throws := True\<rparr>) nobody ?k]
           (snd (handle base (SendEmail (calm 1000) (mail ''a@b.c'' ''Hi'' ''abc123'')) Map.empty))
           ?k = Some fresh"
    unfolding c(1) by (simp add: replay_simps recorded_def calm_def)
  show "run base
           [Pixel ((calm 2000)\<lparr>findOne_throws := True\<rparr>) nobody ?k,
            Click (calm 3000) nobody \<lparr>q_id = Some ?k, q_url = Some (js ''https://x.com'')\<rparr>]
           (snd (handle base (SendEmail (calm 1000) (mail ''a@b.c'' ''Hi'' ''abc123'')) Map.empty))
           ?k = Some (apply_update stale_click fresh)"
    unfolding c(1) using k
    by (simp add: replay_simps recorded_def engaged_def calm_def truthy_def) (simp add: js_def)
qed

lemma failed_pixel_fields:
  shows "status fresh = SENT" and "openedAt fresh = None" and "method' fresh = None"
    and "status (apply_update stale_click fresh) = OPENED"
    and "openedAt (apply_update stale_click fresh) = Some 3000"
    and "method' (apply_update stale_click fresh) = Some CLICK"
    and "openCount (apply_update stale_click fresh) = 1"
  by (simp_all add: apply_update_def click_updateData_def new_tracking_def calm_def
      number_add_one_def)

subsection \<open>The claims about the engagement state machine\<close>

text \<open>
  C3, as stated, fails. When a pixel fetch and a click overlap, both handlers find the
  record as it was created; the pixel handler writes \<open>method = PIXEL\<close>, and the click
  handler then writes the update it had computed, \<open>method = CLICK\<close>, over it. And an
  engagement event whose call of the record store throws sets nothing: after a pixel
  fetch whose \<open>findOne\<close> throws and a click that follows it, \<open>method\<close> is CLICK.
\<close>

theorem stale_click_overwrites_method:
  "reachable (js ''http://localhost:4000'') [js ''abc123'' \<mapsto> opened_by_pixel]
     [(js ''abc123'', stale_click)] \<and>
   method' opened_by_pixel = Some PIXEL \<and>
   reachable (js ''http://localhost:4000'')
     [js ''abc123'' \<mapsto> apply_update stale_click opened_by_pixel] [] \<and>
   method' (apply_update stale_click opened_by_pixel) = Some CLICK \<and>
   engages (js ''abc123'')
     (Pixel ((calm 2000)\<lparr>findOne_throws := True\<rparr>) nobody (js ''abc123'')) \<and>
   map_option method'
     (run (js ''http://localhost:4000'')
        [Pixel ((calm 2000)\<lparr>findOne_throws := True\<rparr>) nobody (js ''abc123''),
         Click (calm 3000) nobody \<lparr>q_id = Some (js ''abc123''), q_url = Some (js ''https://x.com'')\<rparr>]
        (snd (handle (js ''http://localhost:4000'')
           (SendEmail (calm 1000) (mail ''a@b.c'' ''Hi'' ''abc123'')) Map.empty))
        (js ''abc123'')) = Some (Some CLICK)"
proof -
  have e: "engages (js ''abc123'')
     (Pixel ((calm 2000)\<lparr>findOne_throws := True\<rparr>) nobody (js ''abc123''))"
    by simp
  have m: "map_option method'
     (run (js ''http://localhost:4000'')
        [Pixel ((calm 2000)\<lparr>findOne_throws := True\<rparr>) nobody (js ''abc123''),
         Click (calm 3000) nobody \<lparr>q_id = Some (js ''abc123''), q_url = Some (js ''https://x.com'')\<rparr>]
        (snd (handle (js ''http://localhost:4000'')
           (SendEmail (calm 1000) (mail ''a@b.c'' ''Hi'' ''abc123'')) Map.empty))
        (js ''abc123'')) = Some (Some CLICK)"
    by (simp only: failed_pixel_then_click failed_pixel_fields option.map)
  from overlap_reachable(1) overlap_fields(3) overlap_reachable(2) overlap_fields(6) e m
  show ?thesis by (intro conjI)
qed

text \<open>
  C3, amended, for requests that are handled one after another, each to its end before
  the next. A record is created with \<open>method\<close> null. After any requests that follow
  its creation, \<open>method\<close> is still null when none of them is a recorded engagement
  event on the record (a pixel fetch for it, or a click for it with a url, whose calls
  of the record store do not throw), and is otherwise the channel of the first recorded
  event (PIXEL for a pixel fetch, CLICK for a click): no later request changes it. The
  requests are arbitrary: other records' events, refused or failing requests and
  further send requests may stand between the recorded events.
\<close>

theorem method_set_by_first_engagement:
  assumes "db k = None" and "snd (handle base (SendEmail e b) db) k = Some t0"
  shows "method' t0 = None \<and>
         (\<exists>t. run base rs (snd (handle base (SendEmail e b) db)) k = Some t \<and>
              method' t = (case recorded_events k rs of [] \<Rightarrow> None | r # _ \<Rightarrow> request_channel r))"
  using created_replay [OF assms] replay_method(1) [of t0 k rs]
  by simp

text \<open>
  A click followed by a pixel fetch leaves CLICK; a pixel fetch followed by a click
  leaves PIXEL.
\<close>

theorem method_set_by_first_engagement_witness:
  "(Map.empty :: store) (js ''abc123'') = None \<and>
   (\<exists>t. run (js ''http://localhost:4000'')
           [Click (calm 2000) nobody \<lparr>q_id = Some (js ''abc123''), q_url = Some (js ''https://x.com'')\<rparr>,
            Pixel (calm 3000) nobody (js ''abc123'')]
           (snd (handle (js ''http://localhost:4000'')
                  (SendEmail (calm 1000) (mail ''a@b.c'' ''Hi'' ''abc123'')) Map.empty))
           (js ''abc123'') = Some t \<and> method' t = Some CLICK) \<and>
   (\<exists>t. run (js ''http://localhost:4000'')
           [Pixel (calm 2000) nobody (js ''abc123''),
            Click (calm 3000) nobody \<lparr>q_id = Some (js ''abc123''), q_url = Some (js ''https://x.com'')\<rparr>]
           (snd (handle (js ''http://localhost:4000'')
                  (SendEmail (calm 1000) (mail ''a@b.c'' ''Hi'' ''abc123'')) Map.empty))
           (js ''abc123'') = Some t \<and> method' t = Some PIXEL)"
proof -
  let ?k = "js ''abc123''" and ?base = "js ''http://localhost:4000''"
  let ?click = "\<lambda>now. Click (calm now) nobody \<lparr>q_id = Some ?k, q_url = Some (js ''https://x.com'')\<rparr>"
  let ?pixel = "\<lambda>now. Pixel (calm now) nobody ?k"
  have none: "(Map.empty :: store) ?k = None" by simp
  note th = method_set_by_first_engagement [where db = Map.empty and k = ?k and base = ?base,
      OF none sent_abc123_at]
  have e1: "recorded_events ?k [?click 2000, ?pixel 3000] = [?click 2000, ?pixel 3000]"
    and e2: "recorded_events ?k [?pixel 2000, ?click 3000] = [?pixel 2000, ?click 3000]"
    by (simp_all add: recorded_events_def recorded_def calm_def truthy_def js_def)
  from th [of "[?click 2000, ?pixel 3000]"] th [of "[?pixel 2000, ?click 3000]"]
  show ?thesis
    unfolding e1 e2 by simp
qed

text \<open>
  C4, as stated, fails. \<open>openCount\<close> is a Number: after \<open>2 ^ 53 + 1\<close> pixel fetches
  on a fresh record, one after another, it is \<open>2 ^ 53\<close>. And an engagement event
  whose call of the record store throws does not increment it: after a pixel fetch
  whose \<open>findOne\<close> throws and a click, two events, it is 1.
\<close>

theorem openCount_stops_at_2_53:
  "map_option openCount
     (run (js ''http://localhost:4000'')
        (replicate (2 ^ 53 + 1) (Pixel (calm 2000) nobody (js ''abc123'')))
        (snd (handle (js ''http://localhost:4000'')
               (SendEmail (calm 1000) (mail ''a@b.c'' ''Hi'' ''abc123'')) Map.empty))
        (js ''abc123'')) = Some (2 ^ 53) \<and>
   length (filter (engages (js ''abc123''))
        [Pixel ((calm 2000)\<lparr>findOne_throws := True\<rparr>) nobody (js ''abc123''),
         Click (calm 3000) nobody \<lparr>q_id = Some (js ''abc123''), q_url = Some (js ''https://x.com'')\<rparr>]) = 2 \<and>
   map_option openCount
     (run (js ''http://localhost:4000'')
        [Pixel ((calm 2000)\<lparr>findOne_throws := True\<rparr>) nobody (js ''abc123''),
         Click (calm 3000) nobody \<lparr>q_id = Some (js ''abc123''), q_url = Some (js ''https://x.com'')\<rparr>]
        (snd (handle (js ''http://localhost:4000'')
           (SendEmail (calm 1000) (mail ''a@b.c'' ''Hi'' ''abc123'')) Map.empty))
        (js ''abc123'')) = Some 1"
proof -
  let ?k = "js ''abc123''" and ?base = "js ''http://localhost:4000''"
  let ?r = "Pixel (calm 2000) nobody ?k"
  let ?rs = "replicate (2 ^ 53 + 1) ?r"
  have none: "(Map.empty :: store) ?k = None" by simp
  have eng: "recorded ?k ?r" by (simp add: recorded_def calm_def)
  note c = created_replay [where db = Map.empty and k = ?k and base = ?base, OF none sent_abc123_at]
  have "openCount (replay ?k ?rs fresh) = min (length (recorded_events ?k ?rs)) (2 ^ 53)"
    using replay_openCount [OF c(2), of ?k ?rs] c(6) by (simp only: add_one_iterated)
  also have "\<dots> = 2 ^ 53"
    by (simp only: recorded_events_replicate [OF eng] length_replicate)
  finally have "map_option openCount (run ?base ?rs (snd (handle ?base
      (SendEmail (calm 1000) (mail ''a@b.c'' ''Hi'' ''abc123'')) Map.empty)) ?k) = Some (2 ^ 53)"
    by (simp only: c(1) option.map)
  moreover have "length (filter (engages ?k)
        [Pixel ((calm 2000)\<lparr>findOne_throws := True\<rparr>) nobody (js ''abc123''),
         Click (calm 3000) nobody \<lparr>q_id = Some (js ''abc123''), q_url = Some (js ''https://x.com'')\<rparr>]) = 2"
    by (simp add: truthy_def js_def)
  moreover have "map_option openCount
     (run ?base
        [Pixel ((calm 2000)\<lparr>findOne_throws := True\<rparr>) nobody (js ''abc123''),
         Click (calm 3000) nobody \<lparr>q_id = Some (js ''abc123''), q_url = Some (js ''https://x.com'')\<rparr>]
        (snd (handle ?base (SendEmail (calm 1000) (mail ''a@b.c'' ''Hi'' ''abc123'')) Map.empty))
        ?k) = Some 1"
    by (simp only: failed_pixel_then_click failed_pixel_fields option.map)
  ultimately show ?thesis by (intro conjI)
qed

text \<open>
  C4, amended, for requests that are handled one after another, each to its end before
  the next. A record is created with \<open>openCount = 0\<close>. After any requests that follow
  its creation, \<open>openCount\<close> is the number \<open>N\<close> of recorded engagement events on the
  record among them (the pixel fetches for it, and the clicks for it with a url, whose
  calls of the record store do not throw) as long as \<open>N \<le> 2 ^ 53\<close>, and \<open>2 ^ 53\<close> from
  there on; no request resets it.
\<close>

theorem openCount_counts_engagements:
  assumes "db k = None" and "snd (handle base (SendEmail e b) db) k = Some t0"
  shows "openCount t0 = 0 \<and>
         (\<exists>t. run base rs (snd (handle base (SendEmail e b) db)) k = Some t \<and>
              openCount t = min (length (recorded_events k rs)) (2 ^ 53))"
  using created_replay [OF assms] replay_openCount [of t0 k rs]
  by (simp add: add_one_iterated)

text \<open>
  A pixel fetch, a pixel fetch whose \<open>updateOne\<close> throws, a click and a pixel fetch for
  another record: two recorded events.
\<close>

theorem openCount_counts_engagements_witness:
  "(Map.empty :: store) (js ''abc123'') = None \<and>
   (\<exists>t. run (js ''http://localhost:4000'')
           [Pixel (calm 2000) nobody (js ''abc123''),
            Pixel ((calm 2500)\<lparr>updateOne_throws := True\<rparr>) nobody (js ''abc123''),
            Click (calm 3000) nobody \<lparr>q_id = Some (js ''abc123''), q_url = Some (js ''https://x.com'')\<rparr>,
            Pixel (calm 4000) nobody (js ''other'')]
           (snd (handle (js ''http://localhost:4000'')
                  (SendEmail (calm 1000) (mail ''a@b.c'' ''Hi'' ''abc123'')) Map.empty))
           (js ''abc123'') = Some t \<and> openCount t = 2)"
proof -
  let ?k = "js ''abc123''" and ?base = "js ''http://localhost:4000''"
  let ?click = "\<lambda>now. Click (calm now) nobody \<lparr>q_id = Some ?k, q_url = Some (js ''https://x.com'')\<rparr>"
  let ?pixel = "\<lambda>now. Pixel (calm now) nobody ?k"
  let ?rs = "[?pixel 2000, Pixel ((calm 2500)\<lparr>updateOne_throws := True\<rparr>) nobody ?k, ?click 3000,
      Pixel (calm 4000) nobody (js ''other'')]"
  have none: "(Map.empty :: store) ?k = None" by simp
  have e1: "recorded_events ?k ?rs = [?pixel 2000, ?click 3000]"
    by (simp add: recorded_events_def recorded_def calm_def truthy_def js_def)
  have m: "min (length [?pixel 2000, ?click 3000]) (2 ^ 53) = (2 :: nat)" by simp
  from openCount_counts_engagements [where db = Map.empty and k = ?k and base = ?base,
      OF none sent_abc123_at, of ?rs]
  show ?thesis
    unfolding e1 m by simp
qed

text \<open>
  C5, as stated, fails. When a pixel fetch at time 2000 and a click at time 3000
  overlap, both handlers find the record as it was created; the pixel handler writes
  \<open>openedAt = 2000\<close>, and the click handler then writes the update it had computed,
  \<open>openedAt = 3000\<close>, over it. And an engagement event whose call of the record store
  throws sets nothing: after a pixel fetch whose \<open>findOne\<close> throws the record is
  still SENT with \<open>openedAt\<close> null, and a click that follows it at time 3000 sets
  \<open>openedAt = 3000\<close>.
\<close>

theorem stale_click_overwrites_openedAt:
  "reachable (js ''http://localhost:4000'') [js ''abc123'' \<mapsto> opened_by_pixel]
     [(js ''abc123'', stale_click)] \<and>
   openedAt opened_by_pixel = Some 2000 \<and>
   reachable (js ''http://localhost:4000'')
     [js ''abc123'' \<mapsto> apply_update stale_click opened_by_pixel] [] \<and>
   openedAt (apply_update stale_click opened_by_pixel) = Some 3000 \<and>
   engages (js ''abc123'')
     (Pixel ((calm 2000)\<lparr>findOne_throws := True\<rparr>) nobody (js ''abc123'')) \<and>
   map_option status
     (run (js ''http://localhost:4000'')
        [Pixel ((calm 2000)\<lparr>findOne_throws := True\<rparr>) nobody (js ''abc123'')]
        (snd (handle (js ''http://localhost:4000'')
           (SendEmail (calm 1000) (mail ''a@b.c'' ''Hi'' ''abc123'')) Map.empty))
        (js ''abc123'')) = Some SENT \<and>
   map_option openedAt
     (run (js ''http://localhost:4000'')
        [Pixel ((calm 2000)\<lparr>findOne_throws := True\<rparr>) nobody (js ''abc123''),
         Click (calm 3000) nobody \<lparr>q_id = Some (js ''abc123''), q_url = Some (js ''https://x.com'')\<rparr>]
        (snd (handle (js ''http://localhost:4000'')
           (SendEmail (calm 1000) (mail ''a@b.c'' ''Hi'' ''abc123'')) Map.empty))
        (js ''abc123'')) = Some (Some 3000)"
proof -
  have e: "engages (js ''abc123'')
     (Pixel ((calm 2000)\<lparr>findOne_throws := True\<rparr>) nobody (js ''abc123''))"
    by simp
  have st: "map_option status
     (run (js ''http://localhost:4000'')
        [Pixel ((calm 2000)\<lparr>findOne_throws := True\<rparr>) nobody (js ''abc123'')]
        (snd (handle (js ''http://localhost:4000'')
           (SendEmail (calm 1000) (mail ''a@b.c'' ''Hi'' ''abc123'')) Map.empty))
        (js ''abc123'')) = Some SENT"
    by (simp only: failed_pixel_then_click failed_pixel_fields option.map)
  have o: "map_option openedAt
     (run (js ''http://localhost:4000'')
        [Pixel ((calm 2000)\<lparr>findOne_throws := True\<rparr>) nobody (js ''abc123''),
         Click (calm 3000) nobody \<lparr>q_id = Some (js ''abc123''), q_url = Some (js ''https://x.com'')\<rparr>]
        (snd (handle (js ''http://localhost:4000'')
           (SendEmail (calm 1000) (mail ''a@b.c'' ''Hi'' ''abc123'')) Map.empty))
        (js ''abc123'')) = Some (Some 3000)"
    by (simp only: failed_pixel_then_click failed_pixel_fields option.map)
  from overlap_reachable(1) overlap_fields(2) overlap_reachable(2) overlap_fields(5) e st o
  show ?thesis by (intro conjI)
qed

text \<open>
  C5, amended, for requests that are handled one after another, each to its end before
  the next. A record is created with \<open>status = SENT\<close> and \<open>openedAt\<close> null. After any
  requests that follow its creation, the record is still so when none of them is a
  recorded engagement event on it (a pixel fetch for it, or a click for it with a url,
  whose calls of the record store do not throw); otherwise \<open>status\<close> is OPENED and
  \<open>openedAt\<close> is the time of the first recorded event, whatever came after it.
\<close>

theorem status_and_openedAt_set_once:
  assumes "db k = None" and "snd (handle base (SendEmail e b) db) k = Some t0"
  shows "status t0 = SENT \<and> openedAt t0 = None \<and>
         (\<exists>t. run base rs (snd (handle base (SendEmail e b) db)) k = Some t \<and>
              status t = (if recorded_events k rs = [] then SENT else OPENED) \<and>
              openedAt t = (case recorded_events k rs of [] \<Rightarrow> None
                            | r # _ \<Rightarrow> Some (clock (request_env r))))"
  using created_replay [OF assms] replay_status [of t0 k rs] replay_openedAt(1) [of t0 k rs]
  by simp

theorem status_and_openedAt_set_once_witness:
  "(Map.empty :: store) (js ''abc123'') = None \<and>
   (\<exists>t. run (js ''http://localhost:4000'') []
           (snd (handle (js ''http://localhost:4000'')
                  (SendEmail (calm 1000) (mail ''a@b.c'' ''Hi'' ''abc123'')) Map.empty))
           (js ''abc123'') = Some t \<and> status t = SENT \<and> openedAt t = None) \<and>
   (\<exists>t. run (js ''http://localhost:4000'')
           [Pixel (calm 2000) nobody (js ''abc123''),
            Click (calm 3000) nobody \<lparr>q_id = Some (js ''abc123''), q_url = Some (js ''https://x.com'')\<rparr>]
           (snd (handle (js ''http://localhost:4000'')
                  (SendEmail (calm 1000) (mail ''a@b.c'' ''Hi'' ''abc123'')) Map.empty))
           (js ''abc123'') = Some t \<and> status t = OPENED \<and> openedAt t = Some 2000)"
proof -
  let ?k = "js ''abc123''" and ?base = "js ''http://localhost:4000''"
  let ?click = "\<lambda>now. Click (calm now) nobody \<lparr>q_id = Some ?k, q_url = Some (js ''https://x.com'')\<rparr>"
  let ?pixel = "\<lambda>now. Pixel (calm now) nobody ?k"
  have none: "(Map.empty :: store) ?k = None" by simp
  have e1: "recorded_events ?k [] = []"
    and e2: "recorded_events ?k [?pixel 2000, ?click 3000] = [?pixel 2000, ?click 3000]"
    by (simp_all add: recorded_events_def recorded_def calm_def truthy_def js_def)
  note th = status_and_openedAt_set_once [where db = Map.empty and k = ?k and base = ?base,
      OF none sent_abc123_at]
  from th [of "[]"] th [of "[?pixel 2000, ?click 3000]"]
  show ?thesis
    unfolding e1 e2 by (simp add: calm_def)
qed

text \<open>
  C6. In every state the server can reach, with requests in sequence or overlapping,
  every record has \<open>status = OPENED\<close> iff \<open>openedAt\<close> is not null iff \<open>method\<close>
  is not null: the records are created so, and every update that a pixel or click
  handler writes keeps them so.
\<close>

theorem first_engagement_invariant:
  assumes "reachable base db ps" and "db k = Some t"
  shows "(status t = OPENED) = (openedAt t \<noteq> None) \<and> (openedAt t \<noteq> None) = (method' t \<noteq> None)"
  using reachable_inv [OF assms(1)] assms(2) by (simp add: store_ok_def consistent_def)

theorem first_engagement_invariant_witness:
  "reachable (js ''http://localhost:4000'')
     (run (js ''http://localhost:4000'')
        [SendEmail (calm 1000) (mail ''a@b.c'' ''Hi'' ''abc123''),
         Pixel (calm 2000) nobody (js ''abc123'')] Map.empty) [] \<and>
   (\<exists>t. run (js ''http://localhost:4000'')
        [SendEmail (calm 1000) (mail ''a@b.c'' ''Hi'' ''abc123''),
         Pixel (calm 2000) nobody (js ''abc123'')] Map.empty (js ''abc123'') = Some t \<and>
        status t = OPENED \<and> openedAt t = Some 2000 \<and> method' t = Some PIXEL)"
proof -
  let ?k = "js ''abc123''" and ?base = "js ''http://localhost:4000''"
  let ?send = "SendEmail (calm 1000) (mail ''a@b.c'' ''Hi'' ''abc123'')"
  let ?pixel = "Pixel (calm 2000) nobody ?k"
  let ?db = "run ?base [?send, ?pixel] Map.empty"
  have r: "reachable ?base ?db []"
    by (intro run_reachable reachable_empty)
  have none: "(Map.empty :: store) ?k = None" by simp
  have e: "recorded_events ?k [?pixel] = [?pixel]"
    by (simp add: recorded_events_def recorded_def calm_def)
  note c = created_replay [where db = Map.empty and k = ?k and base = ?base, OF none sent_abc123_at]
  have run: "?db ?k = Some (replay ?k [?pixel] (new_tracking (calm 1000) (mail ''a@b.c'' ''Hi'' ''abc123'') ?k (js ''a@b.c'') (js ''Hi'')))"
    using c(1) [of "[?pixel]"] by (simp add: run_def)
  have m: "method' (replay ?k [?pixel] (new_tracking (calm 1000) (mail ''a@b.c'' ''Hi'' ''abc123'') ?k (js ''a@b.c'') (js ''Hi''))) = Some PIXEL"
    and o: "openedAt (replay ?k [?pixel] (new_tracking (calm 1000) (mail ''a@b.c'' ''Hi'' ''abc123'') ?k (js ''a@b.c'') (js ''Hi''))) = Some 2000"
    using replay_method(1) [OF c(2) c(5), of ?k "[?pixel]"] replay_openedAt(1) [OF c(2) c(4), of ?k "[?pixel]"]
    unfolding e by (simp_all add: calm_def)
  from first_engagement_invariant [OF r run] m o
  show ?thesis
    using r run by simp
qed

section \<open>The handlers when tracking fails\<close>

text \<open>The image: the PNG signature, then the chunk IHDR with width 1 and height 1.\<close>

lemma png_octets:
  "png = [0x89, 0x50, 0x4E, 0x47, 0x0D, 0x0A, 0x1A, 0x0A, 0, 0, 0, 0x0D, 0x49, 0x48, 0x44, 0x52,
          0, 0, 0, 1, 0, 0, 0, 1, 8, 4, 0, 0, 0, 0xB5, 0x1C, 0x0C, 0x02, 0, 0, 0, 0x0B, 0x49,
          0x44, 0x41, 0x54, 0x78, 0xDA, 0x63, 0x64, 0x60, 0, 0, 0, 0x06, 0, 0x02, 0x30, 0x81,
          0xD0, 0x2F, 0, 0, 0, 0, 0x49, 0x45, 0x4E, 0x44, 0xAE, 0x42, 0x60, 0x82]"
  by (simp add: png_def buffer_from_base64_def base64_value_def List.map_filter_simps)

lemma pixel_answer: "fst (pixel e rq k db) = Png 200 png"
  by (simp add: pixel_def split: sum.splits)

lemma pixel_store_kept:
  "db k = None \<or> findOne_throws e \<or> updateOne_throws e \<Longrightarrow> snd (pixel e rq k db) = db"
  by (auto simp: pixel_def pixel_try_def findOne_def updateOne_def split: sum.splits option.splits)

lemma click_answer:
  assumes "k \<noteq> []" "u \<noteq> []" "decodeURIComponent u = Inr target"
  shows "fst (click e rq \<lparr>q_id = Some k, q_url = Some u\<rparr> db) = Redirect target"
  using assms
  by (auto simp: click_def click_try_def truthy_def redirect_decoded_def findOne_def updateOne_def
      split: sum.splits option.splits prod.splits)

lemma click_store_kept:
  assumes "db k = None \<or> findOne_throws e \<or> updateOne_throws e"
  shows "snd (click e rq \<lparr>q_id = Some k, q_url = Some u\<rparr> db) = db"
  using assms
  by (auto simp: click_def click_try_def truthy_def redirect_decoded_def findOne_def updateOne_def
      split: sum.splits option.splits prod.splits)

lemma decode_example: "decodeURIComponent (js ''https%3A%2F%2Fx.com'') = Inr (js ''https://x.com'')"
  by (simp add: js_def hex_val_def leading_ones_def)

text \<open>
  C7, as stated, fails: a click request with an empty \<open>id\<close> and a non-empty \<open>url\<close>
  is answered with 400 and no redirect.
\<close>

theorem click_without_id_is_refused:
  "click (calm 2000) nobody \<lparr>q_id = Some [], q_url = Some (js ''https://x.com'')\<rparr> Map.empty =
   (Text 400 (js ''Missing parameters''), Map.empty)"
  by (simp add: click_def truthy_def)

text \<open>
  C7, amended. A pixel fetch is always answered with status 200 and the fixed image, a
  PNG of width 1 and height 1. A click request with a non-empty \<open>id\<close> and a non-empty
  \<open>url\<close> whose escapes \<open>decodeURIComponent\<close> accepts is always answered with a
  redirect to the decoded \<open>url\<close>. Both hold whether the record exists or not and
  whether the record store throws or not; when the identifier matches no record or a
  call of the record store throws, the store is left as it was.
\<close>

theorem tracking_failure_is_absorbed:
  "fst (pixel e rq k db) = Png 200 png \<and>
   take 8 png = [0x89, 0x50, 0x4E, 0x47, 0x0D, 0x0A, 0x1A, 0x0A] \<and>
   take 8 (drop 16 png) = [0, 0, 0, 1, 0, 0, 0, 1] \<and>
   (db k = None \<or> findOne_throws e \<or> updateOne_throws e \<longrightarrow> snd (pixel e rq k db) = db) \<and>
   (k \<noteq> [] \<and> u \<noteq> [] \<and> decodeURIComponent u = Inr target \<longrightarrow>
      fst (click e rq \<lparr>q_id = Some k, q_url = Some u\<rparr> db) = Redirect target) \<and>
   (db k = None \<or> findOne_throws e \<or> updateOne_throws e \<longrightarrow>
      snd (click e rq \<lparr>q_id = Some k, q_url = Some u\<rparr> db) = db)"
  by (simp add: pixel_answer pixel_store_kept click_answer click_store_kept png_octets)

theorem tracking_failure_is_absorbed_witness:
  "fst (pixel ((calm 2000)\<lparr>findOne_throws := True\<rparr>) nobody (js ''abc123'') Map.empty) = Png 200 png \<and>
   snd (pixel ((calm 2000)\<lparr>findOne_throws := True\<rparr>) nobody (js ''abc123'') Map.empty) = Map.empty \<and>
   fst (click ((calm 2000)\<lparr>findOne_throws := True\<rparr>) nobody
          \<lparr>q_id = Some (js ''abc123''), q_url = Some (js ''https%3A%2F%2Fx.com'')\<rparr> Map.empty) =
     Redirect (js ''https://x.com'') \<and>
   snd (click ((calm 2000)\<lparr>findOne_throws := True\<rparr>) nobody
          \<lparr>q_id = Some (js ''abc123''), q_url = Some (js ''https%3A%2F%2Fx.com'')\<rparr> Map.empty) =
     Map.empty"
  using tracking_failure_is_absorbed [of "(calm 2000)\<lparr>findOne_throws := True\<rparr>" nobody
      "js ''abc123''" Map.empty "js ''https%3A%2F%2Fx.com''" "js ''https://x.com''"]
    decode_example
  by (simp add: js_def)

section \<open>The round trip of a rewritten link\<close>

text \<open>
  \<open>decodeURIComponent\<close> undoes \<open>encodeURIComponent\<close>: one escape, the UTF-8
  sequences of each length, and then the whole string.
\<close>

lemma unat_of_nat16: "n < 65536 \<Longrightarrow> unat (of_nat n :: code_unit) = n"
  by (simp add: unat_of_nat)

lemma unat_hex_digit:
  assumes "d < 16"
  shows "unat (hex_digit d) = (if d < 10 then 0x30 + d else 0x41 + (d - 10))"
proof (cases "d < 10")
  case True
  have "unat (of_nat (0x30 + d) :: code_unit) = 0x30 + d"
    using assms by (intro unat_of_nat16) simp
  with True show ?thesis by (simp only: hex_digit_def if_True)
next
  case False
  have "unat (of_nat (0x41 + (d - 10)) :: code_unit) = 0x41 + (d - 10)"
    using assms by (intro unat_of_nat16) simp
  with False show ?thesis by (simp only: hex_digit_def if_False)
qed

lemma hex_val_hex_digit: "d < 16 \<Longrightarrow> hex_val (hex_digit d) = Some d"
  by (auto simp: hex_val_def unat_hex_digit Let_def)

lemma take_escape_octet:
  assumes "b < 256"
  shows "take_escape (percent_octet b @ rest) = Some (b, rest)"
proof -
  from assms have "b div 16 < 16" "b mod 16 < 16" by simp_all
  then show ?thesis
    by (simp add: percent_octet_def hex_val_hex_digit)
qed

lemma take_continuations_octet:
  "b < 256 \<Longrightarrow>
   take_continuations (Suc j) (percent_octet b @ rest) =
     (case take_continuations j rest of None \<Rightarrow> None | Some (bs, r) \<Rightarrow> Some (b # bs, r))"
  by (simp add: take_escape_octet)

lemma decode_octet:
  assumes "b < 256"
  shows "decodeURIComponent (percent_octet b @ rest) =
     (if leading_ones b = 0 then map_sum id ((#) (of_nat b)) (decodeURIComponent rest)
      else if leading_ones b = 1 \<or> 4 < leading_ones b then Inl URIError
      else
        (case take_continuations (leading_ones b - 1) rest of
           None \<Rightarrow> Inl URIError
         | Some (bs, rest') \<Rightarrow>
             (case utf8_decode (b # bs) of
                None \<Rightarrow> Inl URIError
              | Some v \<Rightarrow> map_sum id ((@) (utf16_encode v)) (decodeURIComponent rest'))))"
proof -
  have e: "percent_octet b @ rest = 0x25 # hex_digit (b div 16) # hex_digit (b mod 16) # rest"
    by (simp add: percent_octet_def)
  have t: "take_escape (0x25 # hex_digit (b div 16) # hex_digit (b mod 16) # rest) = Some (b, rest)"
    using take_escape_octet [OF assms, of rest] unfolding e .
  show ?thesis
    unfolding e decodeURIComponent.simps(2) [of "0x25" "hex_digit (b div 16) # hex_digit (b mod 16) # rest"] t
    by simp
qed

lemma take_one_continuation:
  "b < 256 \<Longrightarrow> take_continuations (Suc 0) (percent_octet b @ rest) = Some ([b], rest)"
  by (simp add: take_escape_octet)

lemma take_two_continuations:
  "b < 256 \<Longrightarrow> c < 256 \<Longrightarrow>
   take_continuations 2 (percent_octet b @ percent_octet c @ rest) = Some ([b, c], rest)"
  by (simp add: take_escape_octet numeral_2_eq_2)

lemma take_three_continuations:
  "b < 256 \<Longrightarrow> c < 256 \<Longrightarrow> d < 256 \<Longrightarrow>
   take_continuations 3 (percent_octet b @ percent_octet c @ percent_octet d @ rest) =
     Some ([b, c, d], rest)"
  by (simp add: take_escape_octet numeral_3_eq_3)

lemma split_64: "(n::nat) div 64 * 64 + n mod 64 = n"
  by (rule div_mult_mod_eq)

lemma split_4096: "(n::nat) div 64 div 64 * 4096 + n div 64 mod 64 * 64 + n mod 64 = n"
proof -
  have g: "a * 4096 + b * 64 = (a * 64 + b) * 64" for a b :: nat
    by simp
  have "n div 64 div 64 * 4096 + n div 64 mod 64 * 64 =
        (n div 64 div 64 * 64 + n div 64 mod 64) * 64"
    by (rule g)
  also have "\<dots> = n div 64 * 64"
    by (simp only: split_64)
  finally show ?thesis
    using split_64 [of n] by simp
qed

lemma split_262144:
  "(n::nat) div 64 div 64 div 64 * 262144 + n div 64 div 64 mod 64 * 4096 + n div 64 mod 64 * 64 +
     n mod 64 = n"
proof -
  have g: "a * 262144 + b * 4096 + c * 64 = (a * 4096 + b * 64 + c) * 64" for a b c :: nat
    by simp
  have "n div 64 div 64 div 64 * 262144 + n div 64 div 64 mod 64 * 4096 + n div 64 mod 64 * 64 =
        (n div 64 div 64 div 64 * 4096 + n div 64 div 64 mod 64 * 64 + n div 64 mod 64) * 64"
    by (rule g)
  also have "\<dots> = n div 64 * 64"
    by (simp only: split_4096)
  finally show ?thesis
    using split_64 [of n] by simp
qed

lemma decode_one_octet:
  assumes "cp < 0x80"
  shows "decodeURIComponent (percent_encode cp @ rest) =
         map_sum id ((@) (utf16_encode cp)) (decodeURIComponent rest)"
proof -
  from assms have b: "cp < 256" and l: "leading_ones cp = 0"
    by (simp_all add: leading_ones_def)
  from assms have e: "percent_encode cp = percent_octet cp" and u: "utf16_encode cp = [of_nat cp]"
    by (simp_all add: percent_encode_def utf8_encode_def utf16_encode_def)
  have "(@) [of_nat cp :: code_unit] = (#) (of_nat cp)" by (rule ext) simp
  then show ?thesis
    by (simp add: e u decode_octet [OF b] l)
qed

lemma decode_two_octets:
  assumes "0x80 \<le> cp" "cp < 0x800"
  shows "decodeURIComponent (percent_encode cp @ rest) =
         map_sum id ((@) (utf16_encode cp)) (decodeURIComponent rest)"
proof -
  define b0 where "b0 = 0xC0 + cp div 64"
  define b1 where "b1 = 0x80 + cp mod 64"
  from assms have d: "cp div 64 < 32" by simp
  have m: "cp mod 64 < 64" by simp
  from d m have b: "b0 < 256" "b1 < 256" and l: "leading_ones b0 = 2"
    by (simp_all add: b0_def b1_def leading_ones_def)
  have e: "percent_encode cp @ rest = percent_octet b0 @ percent_octet b1 @ rest"
    using assms by (simp add: percent_encode_def utf8_encode_def b0_def b1_def)
  have "(b0 - 0xC0) * 64 + (b1 - 0x80) = cp"
    by (simp add: b0_def b1_def)
  moreover have "is_continuation b1" using m by (simp add: is_continuation_def b1_def)
  ultimately have v: "utf8_decode [b0, b1] = Some cp"
    using assms by simp
  show ?thesis
    by (simp add: e decode_octet [OF b(1)] l take_one_continuation [OF b(2)] v
        del: utf8_decode.simps take_continuations.simps)
qed

lemma decode_three_octets:
  assumes "0x800 \<le> cp" "cp < 0x10000" "\<not> (0xD800 \<le> cp \<and> cp \<le> 0xDFFF)"
  shows "decodeURIComponent (percent_encode cp @ rest) =
         map_sum id ((@) (utf16_encode cp)) (decodeURIComponent rest)"
proof -
  define b0 where "b0 = 0xE0 + cp div 64 div 64"
  define b1 where "b1 = 0x80 + (cp div 64) mod 64"
  define b2 where "b2 = 0x80 + cp mod 64"
  have q: "cp div 4096 = cp div 64 div 64" by (simp add: div_mult2_eq)
  from assms have d: "cp div 64 div 64 < 16" by (simp add: div_mult2_eq)
  have m: "cp mod 64 < 64" "(cp div 64) mod 64 < 64" by simp_all
  from d m have b: "b0 < 256" "b1 < 256" "b2 < 256" and l: "leading_ones b0 = 3"
    by (simp_all add: b0_def b1_def b2_def leading_ones_def)
  have e: "percent_encode cp @ rest = percent_octet b0 @ percent_octet b1 @ percent_octet b2 @ rest"
    using assms by (simp add: percent_encode_def utf8_encode_def b0_def b1_def b2_def q)
  have "(b0 - 0xE0) * 4096 + (b1 - 0x80) * 64 + (b2 - 0x80) = cp"
    unfolding b0_def b1_def b2_def using split_4096 [of cp] by simp
  moreover have "is_continuation b1" "is_continuation b2"
    using m by (simp_all add: is_continuation_def b1_def b2_def)
  ultimately have v: "utf8_decode [b0, b1, b2] = Some cp"
    using assms by simp
  show ?thesis
    by (simp add: e decode_octet [OF b(1)] l take_two_continuations [OF b(2,3)] v
        del: utf8_decode.simps take_continuations.simps)
qed

lemma decode_four_octets:
  assumes "0x10000 \<le> cp" "cp < 0x110000"
  shows "decodeURIComponent (percent_encode cp @ rest) =
         map_sum id ((@) (utf16_encode cp)) (decodeURIComponent rest)"
proof -
  define b0 where "b0 = 0xF0 + cp div 64 div 64 div 64"
  define b1 where "b1 = 0x80 + (cp div 64 div 64) mod 64"
  define b2 where "b2 = 0x80 + (cp div 64) mod 64"
  define b3 where "b3 = 0x80 + cp mod 64"
  have q: "cp div 4096 = cp div 64 div 64" "cp div 262144 = cp div 64 div 64 div 64"
    by (simp_all add: div_mult2_eq)
  from assms have d: "cp div 64 div 64 div 64 < 5" by (simp add: div_mult2_eq)
  have m: "cp mod 64 < 64" "(cp div 64) mod 64 < 64" "(cp div 64 div 64) mod 64 < 64" by simp_all
  from d m have b: "b0 < 256" "b1 < 256" "b2 < 256" "b3 < 256" and l: "leading_ones b0 = 4"
    by (simp_all add: b0_def b1_def b2_def b3_def leading_ones_def)
  have e: "percent_encode cp @ rest =
      percent_octet b0 @ percent_octet b1 @ percent_octet b2 @ percent_octet b3 @ rest"
    using assms by (simp add: percent_encode_def utf8_encode_def b0_def b1_def b2_def b3_def q)
  have "(b0 - 0xF0) * 262144 + (b1 - 0x80) * 4096 + (b2 - 0x80) * 64 + (b3 - 0x80) = cp"
    unfolding b0_def b1_def b2_def b3_def using split_262144 [of cp] by simp
  moreover have "is_continuation b1" "is_continuation b2" "is_continuation b3"
    using m by (simp_all add: is_continuation_def b1_def b2_def b3_def)
  ultimately have v: "utf8_decode [b0, b1, b2, b3] = Some cp"
    using assms by simp
  show ?thesis
    by (simp add: e decode_octet [OF b(1)] l take_three_continuations [OF b(2,3,4)] v
        del: utf8_decode.simps take_continuations.simps)
qed

lemma decode_percent_encode:
  assumes "cp < 0x110000" "\<not> (0xD800 \<le> cp \<and> cp \<le> 0xDFFF)"
  shows "decodeURIComponent (percent_encode cp @ rest) =
         map_sum id ((@) (utf16_encode cp)) (decodeURIComponent rest)"
proof (cases "cp < 0x80")
  case True
  then show ?thesis by (rule decode_one_octet)
next
  case a: False
  show ?thesis
  proof (cases "cp < 0x800")
    case True
    with a show ?thesis by (intro decode_two_octets) simp_all
  next
    case b: False
    show ?thesis
    proof (cases "cp < 0x10000")
      case True
      with b assms(2) show ?thesis by (intro decode_three_octets) simp_all
    next
      case False
      with assms(1) show ?thesis by (intro decode_four_octets) simp_all
    qed
  qed
qed

lemma unreserved_not_percent: "is_unreserved c \<Longrightarrow> c \<noteq> 0x25"
  by (auto simp: is_unreserved_def)

lemma utf16_of_unit: "utf16_encode (unat (c :: code_unit)) = [c]"
proof -
  have "unat c < 2 ^ LENGTH(16)" by (rule unsigned_less)
  then show ?thesis by (simp add: utf16_encode_def)
qed

lemma unit_scalar:
  assumes "\<not> is_leading_surrogate c" "\<not> is_trailing_surrogate c"
  shows "unat c < 0x110000" "\<not> (0xD800 \<le> unat c \<and> unat c \<le> 0xDFFF)"
proof -
  have "unat c < 2 ^ LENGTH(16)" by (rule unsigned_less)
  then show "unat c < 0x110000" by simp
  from assms show "\<not> (0xD800 \<le> unat c \<and> unat c \<le> 0xDFFF)"
    by (auto simp: is_leading_surrogate_def is_trailing_surrogate_def)
qed

lemma pair_scalar:
  assumes "is_leading_surrogate c" "is_trailing_surrogate d"
  shows "0x10000 \<le> surrogate_pair_to_code_point c d"
    and "surrogate_pair_to_code_point c d < 0x110000"
    and "utf16_encode (surrogate_pair_to_code_point c d) = [c, d]"
proof -
  define h where "h = unat c - 0xD800"
  define l where "l = unat d - 0xDC00"
  from assms have b: "h < 0x400" "l < 0x400" and u: "unat c = 0xD800 + h" "unat d = 0xDC00 + l"
    by (auto simp: h_def l_def is_leading_surrogate_def is_trailing_surrogate_def)
  have cp: "surrogate_pair_to_code_point c d = h * 0x400 + l + 0x10000"
    by (simp add: surrogate_pair_to_code_point_def h_def l_def)
  show "0x10000 \<le> surrogate_pair_to_code_point c d" by (simp add: cp)
  from b show "surrogate_pair_to_code_point c d < 0x110000" by (simp add: cp)
  from b have "(h * 0x400 + l) div 0x400 = h" "(h * 0x400 + l) mod 0x400 = l" by simp_all
  then have "utf16_encode (surrogate_pair_to_code_point c d) = [of_nat (unat c), of_nat (unat d)]"
    by (simp add: cp utf16_encode_def u)
  then show "utf16_encode (surrogate_pair_to_code_point c d) = [c, d]" by simp
qed

lemma decode_unit:
  assumes "\<not> is_leading_surrogate c" "\<not> is_trailing_surrogate c"
  shows "decodeURIComponent (percent_encode (unat c) @ rest) =
         map_sum id ((#) c) (decodeURIComponent rest)"
proof -
  have "(@) [c] = (#) c" by (rule ext) simp
  with decode_percent_encode [OF unit_scalar [OF assms], of rest] show ?thesis
    by (simp only: utf16_of_unit)
qed

lemma decode_pair:
  assumes "is_leading_surrogate c" "is_trailing_surrogate d"
  shows "decodeURIComponent (percent_encode (surrogate_pair_to_code_point c d) @ rest) =
         map_sum id ((@) [c, d]) (decodeURIComponent rest)"
proof -
  note p = pair_scalar [OF assms]
  from p(1) have "\<not> (0xD800 \<le> surrogate_pair_to_code_point c d \<and> surrogate_pair_to_code_point c d \<le> 0xDFFF)"
    by simp
  from decode_percent_encode [OF p(2) this, of rest] show ?thesis
    by (simp only: p(3))
qed

lemma decode_encode:
  "encodeURIComponent u = Inr e \<Longrightarrow> decodeURIComponent e = Inr u"
proof (induction u arbitrary: e rule: encodeURIComponent.induct)
  case 1
  then show ?case by simp
next
  case (2 c)
  show ?case
  proof (cases "is_unreserved c")
    case True
    with 2 unreserved_not_percent [OF True] show ?thesis by auto
  next
    case False
    with 2 have s: "\<not> is_leading_surrogate c" "\<not> is_trailing_surrogate c"
      and e: "e = percent_encode (unat c) @ []"
      by (auto split: if_splits)
    show ?thesis unfolding e decode_unit [OF s] by simp
  qed
next
  case (3 c d ds)
  show ?case
  proof (cases "is_unreserved c")
    case True
    with 3(4) obtain e' where e: "encodeURIComponent (d # ds) = Inr e'" "e = c # e'"
      by (cases "encodeURIComponent (d # ds)") auto
    from 3(1) [OF True e(1)] unreserved_not_percent [OF True] show ?thesis
      by (simp add: e(2))
  next
    case u: False
    show ?thesis
    proof (cases "is_leading_surrogate c")
      case True
      with u 3(4) have t: "\<not> is_trailing_surrogate c" "is_trailing_surrogate d"
        by (auto split: if_splits)
      with u True 3(4) obtain e' where e: "encodeURIComponent ds = Inr e'"
        "e = percent_encode (surrogate_pair_to_code_point c d) @ e'"
        by (cases "encodeURIComponent ds") auto
      from 3(2) [OF u t(1) True t(2) e(1)] show ?thesis
        unfolding e(2) decode_pair [OF True t(2)] by simp
    next
      case False
      with u 3(4) have t: "\<not> is_trailing_surrogate c"
        by (auto split: if_splits)
      with u False 3(4) obtain e' where e: "encodeURIComponent (d # ds) = Inr e'"
        "e = percent_encode (unat c) @ e'"
        by (cases "encodeURIComponent (d # ds)") auto
      from 3(3) [OF u t False e(1)] show ?thesis
        unfolding e(2) decode_unit [OF False t] by simp
    qed
  qed
qed

lemma hex_digit_not_plus: "d < 16 \<Longrightarrow> hex_digit d \<noteq> 0x2B"
proof
  assume "d < 16" "hex_digit d = 0x2B"
  then have "unat (hex_digit d) = 0x2B" by simp
  with \<open>d < 16\<close> show False by (simp add: unat_hex_digit split: if_splits)
qed

lemma percent_octet_no_plus: "b < 256 \<Longrightarrow> 0x2B \<notin> set (percent_octet b)"
proof -
  assume "b < 256"
  then have "b div 16 < 16" "b mod 16 < 16" by simp_all
  from this [THEN hex_digit_not_plus] show ?thesis
    by (auto simp: percent_octet_def)
qed

lemma utf8_octets: "cp < 0x110000 \<Longrightarrow> b \<in> set (utf8_encode cp) \<Longrightarrow> b < 256"
proof -
  assume cp: "cp < 0x110000" and b: "b \<in> set (utf8_encode cp)"
  have m: "cp mod 64 < 64" "cp div 64 mod 64 < 64" "cp div 4096 mod 64 < 64" by simp_all
  from cp have "cp div 262144 < 5" by simp
  moreover have "cp < 0x800 \<Longrightarrow> cp div 64 < 32" by simp
  moreover have "cp < 0x10000 \<Longrightarrow> cp div 4096 < 16" by simp
  ultimately show ?thesis
    using b m by (auto simp: utf8_encode_def split: if_splits)
qed

lemma percent_encode_no_plus: "cp < 0x110000 \<Longrightarrow> 0x2B \<notin> set (percent_encode cp)"
  by (auto simp: percent_encode_def dest: utf8_octets percent_octet_no_plus)

lemma unreserved_not_plus: "is_unreserved c \<Longrightarrow> c \<noteq> 0x2B"
  by (auto simp: is_unreserved_def)

lemma encode_no_plus: "encodeURIComponent u = Inr e \<Longrightarrow> 0x2B \<notin> set e"
proof (induction u arbitrary: e rule: encodeURIComponent.induct)
  case 1
  then show ?case by simp
next
  case (2 c)
  show ?case
  proof (cases "is_unreserved c")
    case True
    with 2 unreserved_not_plus [OF True] show ?thesis by auto
  next
    case False
    with 2 have s: "\<not> is_leading_surrogate c" "\<not> is_trailing_surrogate c"
      and e: "e = percent_encode (unat c)"
      by (auto split: if_splits)
    from percent_encode_no_plus [OF unit_scalar(1) [OF s]] show ?thesis by (simp add: e)
  qed
next
  case (3 c d ds)
  show ?case
  proof (cases "is_unreserved c")
    case True
    with 3(4) obtain e' where e: "encodeURIComponent (d # ds) = Inr e'" "e = c # e'"
      by (cases "encodeURIComponent (d # ds)") auto
    from 3(1) [OF True e(1)] unreserved_not_plus [OF True] show ?thesis
      by (simp add: e(2))
  next
    case u: False
    show ?thesis
    proof (cases "is_leading_surrogate c")
      case True
      with u 3(4) have t: "\<not> is_trailing_surrogate c" "is_trailing_surrogate d"
        by (auto split: if_splits)
      with u True 3(4) obtain e' where e: "encodeURIComponent ds = Inr e'"
        "e = percent_encode (surrogate_pair_to_code_point c d) @ e'"
        by (cases "encodeURIComponent ds") auto
      from 3(2) [OF u t(1) True t(2) e(1)]
        percent_encode_no_plus [OF pair_scalar(2) [OF True t(2)]]
      show ?thesis by (simp add: e(2))
    next
      case False
      with u 3(4) have t: "\<not> is_trailing_surrogate c"
        by (auto split: if_splits)
      with u False 3(4) obtain e' where e: "encodeURIComponent (d # ds) = Inr e'"
        "e = percent_encode (unat c) @ e'"
        by (cases "encodeURIComponent (d # ds)") auto
      from 3(3) [OF u t False e(1)] percent_encode_no_plus [OF unit_scalar(1) [OF False t]]
      show ?thesis by (simp add: e(2))
    qed
  qed
qed

lemma query_decode_encode:
  assumes "encodeURIComponent u = Inr e"
  shows "query_decode e = u"
proof -
  from encode_no_plus [OF assms] have "map (\<lambda>c. if c = 0x2B then 0x20 else c) e = e"
    by (induction e) auto
  with decode_encode [OF assms] show ?thesis
    by (simp add: query_decode_def)
qed

lemma decode_without_percent: "0x25 \<notin> set u \<Longrightarrow> decodeURIComponent u = Inr u"
  by (induction u) auto

text \<open>
  C2, as stated, fails. The handler decodes the parameter that the framework has
  decoded already: an href that holds an escape of its own, \<open>https://x.com/?q=a%26b\<close>,
  comes back from the framework as it was written and is then redirected to
  \<open>https://x.com/?q=a&b\<close>. And the empty href, which the rewrite sends through the
  indirection as well, is answered with 400: the handler refuses an empty \<open>url\<close>.
\<close>

theorem escaped_href_decoded_twice:
  "encodeURIComponent (js ''https://x.com/?q=a%26b'') = Inr (js ''https%3A%2F%2Fx.com%2F%3Fq%3Da%2526b'') \<and>
   query_decode (js ''https%3A%2F%2Fx.com%2F%3Fq%3Da%2526b'') = js ''https://x.com/?q=a%26b'' \<and>
   fst (click (calm 2000) nobody
          \<lparr>q_id = Some (js ''abc123''), q_url = Some (js ''https://x.com/?q=a%26b'')\<rparr> Map.empty) =
     Redirect (js ''https://x.com/?q=a&b'') \<and>
   encodeURIComponent [] = Inr [] \<and> query_decode [] = [] \<and>
   fst (click (calm 2000) nobody \<lparr>q_id = Some (js ''abc123''), q_url = Some []\<rparr> Map.empty) =
     Text 400 (js ''Missing parameters'')"
proof -
  have e: "encodeURIComponent (js ''https://x.com/?q=a%26b'') = Inr (js ''https%3A%2F%2Fx.com%2F%3Fq%3Da%2526b'')"
    by (simp add: evaluation)
  have d: "decodeURIComponent (js ''https://x.com/?q=a%26b'') = Inr (js ''https://x.com/?q=a&b'')"
    by (simp add: js_def hex_val_def leading_ones_def)
  have c: "fst (click (calm 2000) nobody
          \<lparr>q_id = Some (js ''abc123''), q_url = Some (js ''https://x.com/?q=a%26b'')\<rparr> Map.empty) =
     Redirect (js ''https://x.com/?q=a&b'')"
    by (rule click_answer [OF _ _ d]) (simp_all add: js_def)
  have z: "fst (click (calm 2000) nobody \<lparr>q_id = Some (js ''abc123''), q_url = Some []\<rparr> Map.empty) =
     Text 400 (js ''Missing parameters'')"
    by (simp add: click_def truthy_def)
  have q0: "query_decode [] = []" by (simp add: query_decode_def)
  from e query_decode_encode [OF e] c z q0 show ?thesis by simp
qed

text \<open>
  C2, amended. For every non-empty href \<open>u\<close> without the character \<open>%\<close> that
  \<open>encodeURIComponent\<close> accepts, and every non-empty tracking identifier: the
  \<open>url\<close> parameter \<open>e\<close> that the rewrite writes is decoded by the framework to
  \<open>u\<close> again, and the click handler called with it redirects to exactly \<open>u\<close>,
  whatever the record store holds or does.
\<close>

theorem link_round_trip:
  assumes "encodeURIComponent u = Inr e" and "u \<noteq> []" and "0x25 \<notin> set u" and "k \<noteq> []"
  shows "query_decode e = u \<and>
         fst (click env rq \<lparr>q_id = Some k, q_url = Some (query_decode e)\<rparr> db) = Redirect u"
proof -
  note q = query_decode_encode [OF assms(1)]
  from click_answer [OF assms(4,2) decode_without_percent [OF assms(3)]] q
  show ?thesis by simp
qed

theorem link_round_trip_witness:
  "encodeURIComponent (js ''https://x.com'') = Inr (js ''https%3A%2F%2Fx.com'') \<and>
   js ''https://x.com'' \<noteq> [] \<and> 0x25 \<notin> set (js ''https://x.com'') \<and> js ''abc123'' \<noteq> [] \<and>
   query_decode (js ''https%3A%2F%2Fx.com'') = js ''https://x.com'' \<and>
   fst (click (calm 2000) nobody
          \<lparr>q_id = Some (js ''abc123''), q_url = Some (query_decode (js ''https%3A%2F%2Fx.com''))\<rparr>
          Map.empty) = Redirect (js ''https://x.com'')"
proof -
  have h1: "encodeURIComponent (js ''https://x.com'') = Inr (js ''https%3A%2F%2Fx.com'')"
    by (simp add: evaluation)
  have h2: "js ''https://x.com'' \<noteq> []" and h3: "0x25 \<notin> set (js ''https://x.com'')"
    and h4: "js ''abc123'' \<noteq> []"
    by (simp_all add: js_def)
  note r = link_round_trip [OF h1 h2 h3 h4, of "calm 2000" nobody Map.empty]
  from h1 h2 h3 h4 r [THEN conjunct1] r [THEN conjunct2]
  show ?thesis by (intro conjI)
qed

end
